theory Spec2Isabelle
  imports Main "HOL-Library.Sublist"
begin

section \<open>Text, paths and the file tree\<close>

text \<open>
  The two scripts of the repository, \<^verbatim>\<open>extract_files.py\<close> and \<^verbatim>\<open>test.py\<close>, are embedded
  as functions over an explicit system state: a file tree, a working directory and the
  list of texts handed to \<^verbatim>\<open>print\<close>. Text is a \<^typ>\<open>string\<close>; one \<^typ>\<open>char\<close> stands for one
  code point below 256. The file tree is a POSIX tree without symbolic links, with
  case-sensitive names and no permission bits: a map from the list of names leading
  from the root to a node.
\<close>

abbreviation NL :: char where "NL \<equiv> CHR 0x0A"
abbreviation CR :: char where "CR \<equiv> CHR 0x0D"
abbreviation sep :: char where "sep \<equiv> CHR ''/''"

datatype error =
    FileNotFoundError
  | NotADirectoryError
  | IsADirectoryError
  | FileExistsError
  | KeyError string

datatype node = Dir | File string

record sys =
  nodes :: "string list \<rightharpoonup> node"
  cwd :: "string list"
  stdout :: "string list"

text \<open>The root directory always exists.\<close>

definition node_at :: "(string list \<rightharpoonup> node) \<Rightarrow> string list \<Rightarrow> node option" where
  "node_at ns k = (if k = [] then Some Dir else ns k)"

text \<open>\<^verbatim>\<open>print(x)\<close>: one entry of the output per call.\<close>

definition print :: "string \<Rightarrow> sys \<Rightarrow> sys" where
  "print x st = st\<lparr>stdout := stdout st @ [x]\<rparr>"

subsection \<open>Strings\<close>

text \<open>\<^verbatim>\<open>str.isspace\<close> on the code points below 256, and \<^verbatim>\<open>str.strip()\<close>.\<close>

definition is_space :: "char \<Rightarrow> bool" where
  "is_space c = ((of_char c :: nat) \<in> set [9, 10, 11, 12, 13, 28, 29, 30, 31, 32, 133, 160])"

definition strip :: "string \<Rightarrow> string" where
  "strip s = rev (dropWhile is_space (rev (dropWhile is_space s)))"

text \<open>Reading a file opened in text mode turns \<^verbatim>\<open>\r\n\<close> and \<^verbatim>\<open>\r\<close> into \<^verbatim>\<open>\n\<close>.\<close>

fun universal_newlines :: "string \<Rightarrow> string" where
  "universal_newlines [] = []"
| "universal_newlines [c] = [if c = CR then NL else c]"
| "universal_newlines (c # d # cs) =
     (if c = CR \<and> d = NL then NL # universal_newlines cs
      else if c = CR then NL # universal_newlines (d # cs)
      else c # universal_newlines (d # cs))"

subsection \<open>\<^verbatim>\<open>posixpath\<close>\<close>

definition rstrip_sep :: "string \<Rightarrow> string" where
  "rstrip_sep p = rev (dropWhile (\<lambda>c. c = sep) (rev p))"

text \<open>
  \<^verbatim>\<open>posixpath.split\<close>: the head is everything up to the last slash, without its trailing
  slashes unless it consists of slashes only; the tail is what follows the last slash.
\<close>

definition psplit :: "string \<Rightarrow> string \<times> string" where
  "psplit p =
     (let head = rev (dropWhile (\<lambda>c. c \<noteq> sep) (rev p));
          tail = rev (takeWhile (\<lambda>c. c \<noteq> sep) (rev p))
      in (if head \<noteq> [] \<and> rstrip_sep head \<noteq> [] then rstrip_sep head else head, tail))"

definition dirname :: "string \<Rightarrow> string" where
  "dirname p = fst (psplit p)"

text \<open>\<^verbatim>\<open>posixpath.join\<close> of two paths.\<close>

definition join :: "string \<Rightarrow> string \<Rightarrow> string" where
  "join a b =
     (if b \<noteq> [] \<and> hd b = sep then b
      else if a = [] \<or> last a = sep then a @ b
      else a @ [sep] @ b)"

subsection \<open>Path resolution\<close>

text \<open>\<^verbatim>\<open>s.split(d)\<close>: the pieces between the occurrences of \<open>d\<close>, empty ones included.\<close>

fun split_on :: "char \<Rightarrow> string \<Rightarrow> string list" where
  "split_on d [] = [[]]"
| "split_on d (c # cs) =
     (if c = d then [] # split_on d cs
      else (case split_on d cs of [] \<Rightarrow> [[c]] | x # xs \<Rightarrow> (c # x) # xs))"

abbreviation split_sep :: "string \<Rightarrow> string list" where
  "split_sep \<equiv> split_on sep"

text \<open>
  Walking a list of names from a directory: an empty name and \<^verbatim>\<open>.\<close> stay, \<^verbatim>\<open>..\<close> goes
  to the parent, any other name must exist; every step starts in a directory.
\<close>

fun walk :: "(string list \<rightharpoonup> node) \<Rightarrow> string list \<Rightarrow> string list \<Rightarrow> error + string list" where
  "walk ns cur [] = Inr cur"
| "walk ns cur (c # cs) =
     (case node_at ns cur of
        None \<Rightarrow> Inl FileNotFoundError
      | Some (File _) \<Rightarrow> Inl NotADirectoryError
      | Some Dir \<Rightarrow>
          (if c = [] \<or> c = ''.'' then walk ns cur cs
           else if c = ''..'' then walk ns (butlast cur) cs
           else (case node_at ns (cur @ [c]) of
                   None \<Rightarrow> Inl FileNotFoundError
                 | Some _ \<Rightarrow> walk ns (cur @ [c]) cs)))"

definition start :: "sys \<Rightarrow> string \<Rightarrow> string list" where
  "start st p = (if p \<noteq> [] \<and> hd p = sep then [] else cwd st)"

definition resolve :: "sys \<Rightarrow> string \<Rightarrow> error + string list" where
  "resolve st p =
     (if p = [] then Inl FileNotFoundError
      else (case walk (nodes st) (start st p) (split_sep p) of
              Inl e \<Rightarrow> Inl e
            | Inr k \<Rightarrow> (case node_at (nodes st) k of
                          None \<Rightarrow> Inl FileNotFoundError
                        | Some _ \<Rightarrow> Inr k)))"

text \<open>\<^verbatim>\<open>os.path.exists\<close> and \<^verbatim>\<open>os.path.isdir\<close>: false on every failure of \<^verbatim>\<open>stat\<close>.\<close>

definition exists :: "sys \<Rightarrow> string \<Rightarrow> bool" where
  "exists st p = (case resolve st p of Inl _ \<Rightarrow> False | Inr _ \<Rightarrow> True)"

definition isdir :: "sys \<Rightarrow> string \<Rightarrow> bool" where
  "isdir st p =
     (case resolve st p of Inl _ \<Rightarrow> False | Inr k \<Rightarrow> node_at (nodes st) k = Some Dir)"

subsection \<open>File operations\<close>

text \<open>\<^verbatim>\<open>open(p, 'r')\<close> followed by \<^verbatim>\<open>read()\<close>.\<close>

definition read_text :: "sys \<Rightarrow> string \<Rightarrow> error + string" where
  "read_text st p =
     (case resolve st p of
        Inl e \<Rightarrow> Inl e
      | Inr k \<Rightarrow> (case node_at (nodes st) k of
                    Some (File d) \<Rightarrow> Inr (universal_newlines d)
                  | Some Dir \<Rightarrow> Inl IsADirectoryError
                  | None \<Rightarrow> Inl FileNotFoundError))"

text \<open>
  \<^verbatim>\<open>open(p, 'w')\<close>, \<^verbatim>\<open>write(data)\<close> and close: the parent must be a directory, the file is
  created or replaced, and the data is stored as given.
\<close>

definition open_w :: "string \<Rightarrow> string \<Rightarrow> sys \<Rightarrow> error + sys" where
  "open_w p d st =
     (if p = [] then Inl FileNotFoundError
      else (case walk (nodes st) (start st p) (butlast (split_sep p)) of
              Inl e \<Rightarrow> Inl e
            | Inr k \<Rightarrow>
                (case node_at (nodes st) k of
                   None \<Rightarrow> Inl FileNotFoundError
                 | Some (File _) \<Rightarrow> Inl NotADirectoryError
                 | Some Dir \<Rightarrow>
                     (let n = last (split_sep p) in
                      if n = [] \<or> n = ''.'' \<or> n = ''..'' then Inl IsADirectoryError
                      else (case node_at (nodes st) (k @ [n]) of
                              Some Dir \<Rightarrow> Inl IsADirectoryError
                            | _ \<Rightarrow> Inr (st\<lparr>nodes := (nodes st)(k @ [n] \<mapsto> File d)\<rparr>))))))"

text \<open>\<^verbatim>\<open>os.mkdir\<close>: trailing slashes are ignored; the parent must be a directory and the name new.\<close>

definition mkdir :: "string \<Rightarrow> sys \<Rightarrow> error + sys" where
  "mkdir p st =
     (let q = rstrip_sep p in
      if p = [] then Inl FileNotFoundError
      else if q = [] then Inl FileExistsError
      else (case walk (nodes st) (start st q) (butlast (split_sep q)) of
              Inl e \<Rightarrow> Inl e
            | Inr k \<Rightarrow>
                (case node_at (nodes st) k of
                   None \<Rightarrow> Inl FileNotFoundError
                 | Some (File _) \<Rightarrow> Inl NotADirectoryError
                 | Some Dir \<Rightarrow>
                     (let n = last (split_sep q) in
                      if n = ''.'' \<or> n = ''..'' then Inl FileExistsError
                      else if node_at (nodes st) (k @ [n]) \<noteq> None then Inl FileExistsError
                      else Inr (st\<lparr>nodes := (nodes st)(k @ [n] \<mapsto> Dir)\<rparr>)))))"

text \<open>
  \<^verbatim>\<open>os.makedirs(name, exist_ok=True)\<close>, as in CPython's \<^verbatim>\<open>os.py\<close>: split the name, take the
  split of the head when the tail is empty, create the head first when it does not exist
  (a \<^verbatim>\<open>FileExistsError\<close> of that call is passed over), then \<^verbatim>\<open>mkdir\<close> the name, whose
  error is dropped when the name is a directory afterwards. The state is returned also
  on an error: directories created before it stay.
\<close>

definition split2 :: "string \<Rightarrow> string \<times> string" where
  "split2 name = (if snd (psplit name) = [] then psplit (fst (psplit name)) else psplit name)"

definition mkdir_ok :: "string \<Rightarrow> sys \<Rightarrow> error option \<times> sys" where
  "mkdir_ok name st =
     (case mkdir name st of
        Inr st' \<Rightarrow> (None, st')
      | Inl e \<Rightarrow> (if isdir st name then (None, st) else (Some e, st)))"

function makedirs :: "string \<Rightarrow> sys \<Rightarrow> error option \<times> sys" where
  "makedirs name st =
     (if fst (split2 name) \<noteq> [] \<and> snd (split2 name) \<noteq> [] \<and> \<not> exists st (fst (split2 name)) then
        (case makedirs (fst (split2 name)) st of
           (Some e, st') \<Rightarrow>
             (if e = FileExistsError then
                (if snd (split2 name) = ''.'' then (None, st') else mkdir_ok name st')
              else (Some e, st'))
         | (None, st') \<Rightarrow>
             (if snd (split2 name) = ''.'' then (None, st') else mkdir_ok name st'))
      else mkdir_ok name st)"
  by pat_completeness auto
termination
proof -
  have psplit_length: "length (fst (psplit p)) + length (snd (psplit p)) \<le> length p" for p
  proof -
    let ?h = "rev (dropWhile (\<lambda>c. c \<noteq> sep) (rev p))"
    let ?t = "rev (takeWhile (\<lambda>c. c \<noteq> sep) (rev p))"
    have "length ?h + length ?t = length p"
      by (metis add.commute length_append length_rev takeWhile_dropWhile_id)
    moreover have "length (rstrip_sep ?h) \<le> length ?h"
      by (simp add: rstrip_sep_def length_dropWhile_le)
    ultimately show ?thesis
      by (simp add: psplit_def Let_def)
  qed
  have pos: "xs \<noteq> [] \<Longrightarrow> 0 < length xs" for xs :: string by simp
  have shorter: "length (fst (split2 name)) < length name" if t: "snd (split2 name) \<noteq> []" for name
  proof (cases "snd (psplit name) = []")
    case True
    then have s: "split2 name = psplit (fst (psplit name))" by (simp add: split2_def)
    from t have "0 < length (snd (psplit (fst (psplit name))))" unfolding s by (rule pos)
    with psplit_length [of "fst (psplit name)"] psplit_length [of name]
    show ?thesis unfolding s by linarith
  next
    case False
    then have s: "split2 name = psplit name" by (simp add: split2_def)
    from t have "0 < length (snd (psplit name))" unfolding s by (rule pos)
    with psplit_length [of name] show ?thesis unfolding s by linarith
  qed
  show ?thesis
    by (relation "measure (\<lambda>(name, st). length name)") (auto simp: shorter)
qed

section \<open>The extractor: \<^verbatim>\<open>extract_files.py\<close>\<close>

subsection \<open>The pattern\<close>

text \<open>
  The pattern is \<^verbatim>\<open>### \*\*(.+?\.swift)\*\*\n```swift\n(.*?)\n```\<close> under \<^verbatim>\<open>re.DOTALL\<close>: the
  literal \<^verbatim>\<open>### **\<close>, a first group of one or more characters of any kind (newlines
  included) taken lazily and ending in \<^verbatim>\<open>.swift\<close>, the literal \<^verbatim>\<open>**\<close>, a newline, the
  opening fence \<^verbatim>\<open>```swift\<close> and a newline, a second group of any characters taken
  lazily, and a newline followed by the closing fence.
\<close>

definition hdr_open :: string where
  "hdr_open = ''### **''"

definition ext :: string where
  "ext = ''.swift''"

definition hdr_close :: string where
  "hdr_close = ''**\<newline>```swift\<newline>''"

definition fence_close :: string where
  "fence_close = ''\<newline>```''"

text \<open>
  The second group and the closing fence: the backtracking matcher tries the shortest
  group first, so the group ends at the first position where the closing fence starts.
  The result is the group and the text left after the match.
\<close>

fun match_code :: "string \<Rightarrow> string \<Rightarrow> (string \<times> string) option" where
  "match_code acc [] = None"
| "match_code acc (c # cs) =
     (if prefix fence_close (c # cs) then Some (acc, drop (length fence_close) (c # cs))
      else match_code (acc @ [c]) cs)"

text \<open>
  The lazy part of the first group, with \<open>acc\<close> the characters it holds already (at
  least one): it stops at the first position from which the whole rest of the pattern
  matches, and takes one more character otherwise.
\<close>

fun match_path :: "string \<Rightarrow> string \<Rightarrow> (string \<times> string \<times> string) option" where
  "match_path acc [] = None"
| "match_path acc (c # cs) =
     (case (if prefix (ext @ hdr_close) (c # cs)
            then match_code [] (drop (length (ext @ hdr_close)) (c # cs)) else None) of
        Some (code, rest) \<Rightarrow> Some (acc @ ext, code, rest)
      | None \<Rightarrow> match_path (acc @ [c]) cs)"

text \<open>A match that starts at the first character of the text.\<close>

definition match_at :: "string \<Rightarrow> (string \<times> string \<times> string) option" where
  "match_at s =
     (if prefix hdr_open s then
        (case drop (length hdr_open) s of
           [] \<Rightarrow> None
         | c # cs \<Rightarrow> match_path [c] cs)
      else None)"

text \<open>
  \<^verbatim>\<open>re.findall\<close>: the matches from left to right, none overlapping another; the search
  goes on after the end of a match, and one character further where none starts.
\<close>

function findall :: "string \<Rightarrow> (string \<times> string) list" where
  "findall s =
     (case match_at s of
        Some (p, c, rest) \<Rightarrow> (p, c) # findall rest
      | None \<Rightarrow> (case s of [] \<Rightarrow> [] | _ # cs \<Rightarrow> findall cs))"
  by pat_completeness auto
termination
proof -
  have fl: "length fence_close = 4" by (simp add: fence_close_def)
  have code: "length r < length s" if "match_code acc s = Some (c, r)" for acc s c r
    using that
  proof (induction acc s rule: match_code.induct)
    case (1 acc)
    then show ?case by simp
  next
    case (2 acc x xs)
    show ?case
    proof (cases "prefix fence_close (x # xs)")
      case True
      with 2 have "r = drop (length fence_close) (x # xs)" by simp
      then show ?thesis by (simp add: fl)
    next
      case False
      with 2 have "length r < length xs" by simp
      then show ?thesis by simp
    qed
  qed
  have path: "length r < length s" if "match_path acc s = Some (p, c, r)" for acc s p c r
    using that
  proof (induction acc s rule: match_path.induct)
    case (1 acc)
    then show ?case by simp
  next
    case (2 acc x xs)
    let ?t = "if prefix (ext @ hdr_close) (x # xs)
              then match_code [] (drop (length (ext @ hdr_close)) (x # xs)) else None"
    show ?case
    proof (cases ?t)
      case None
      with 2 have "length r < length xs" by simp
      then show ?thesis by simp
    next
      case (Some a)
      obtain code' rest where a: "a = (code', rest)" by (cases a)
      from Some a
      have m: "match_code [] (drop (length (ext @ hdr_close)) (x # xs)) = Some (code', rest)"
        by (simp split: if_splits)
      from "2.prems" Some a have "r = rest" by simp
      with code [OF m] show ?thesis
        by (metis length_drop order.strict_trans2 diff_le_self)
    qed
  qed
  have at: "length r < length s" if a: "match_at s = Some (p, c, r)" for s p c r
  proof -
    from a obtain x xs where d: "drop (length hdr_open) s = x # xs"
      and m: "match_path [x] xs = Some (p, c, r)"
      by (auto simp: match_at_def split: if_splits list.splits)
    have "length (x # xs) \<le> length s" using d by (metis diff_le_self length_drop)
    with path [OF m] show ?thesis by simp
  qed
  show ?thesis
    by (relation "measure length") (auto dest: at)
qed

subsection \<open>The loop over the matches\<close>

definition base :: string where
  "base = ''/Users/fredrickburns/Code_Repositories/StudentAnalysisSystem''"

text \<open>
  One turn of the loop: strip the path, join it to the base, create the directories of
  its directory name, write the code, print the path. An error ends the run with
  the state reached.
\<close>

definition write_one :: "string \<times> string \<Rightarrow> sys \<Rightarrow> error option \<times> sys" where
  "write_one m st =
     (let filepath = strip (fst m);
          full_path = join base filepath
      in (case makedirs (dirname full_path) st of
            (Some e, st1) \<Rightarrow> (Some e, st1)
          | (None, st1) \<Rightarrow>
              (case open_w full_path (snd m) st1 of
                 Inl e \<Rightarrow> (Some e, st1)
               | Inr st2 \<Rightarrow> (None, print (''Written: '' @ filepath) st2))))"

fun write_matches :: "(string \<times> string) list \<Rightarrow> sys \<Rightarrow> error option \<times> sys" where
  "write_matches [] st = (None, st)"
| "write_matches (m # ms) st =
     (case write_one m st of
        (Some e, st') \<Rightarrow> (Some e, st')
      | (None, st') \<Rightarrow> write_matches ms st')"

definition extract_swift_files :: "string \<Rightarrow> sys \<Rightarrow> error option \<times> sys" where
  "extract_swift_files input_file st =
     (case read_text st input_file of
        Inl e \<Rightarrow> (Some e, st)
      | Inr content \<Rightarrow> write_matches (findall content) st)"

text \<open>The script: the extraction of \<^verbatim>\<open>remaining_files.txt\<close>, then the closing message.\<close>

definition extractor_main :: "sys \<Rightarrow> error option \<times> sys" where
  "extractor_main st =
     (case extract_swift_files ''remaining_files.txt'' st of
        (Some e, st') \<Rightarrow> (Some e, st')
      | (None, st') \<Rightarrow> (None, print ''\<newline>Extraction complete!'' st'))"

section \<open>The inspector: \<^verbatim>\<open>test.py\<close>\<close>

text \<open>
  \<^verbatim>\<open>csv.reader\<close> is a parameter: a function from the text of the file to its records,
  each a list of fields. \<^verbatim>\<open>csv.DictReader\<close> is modelled on top of it as \<^verbatim>\<open>csv.py\<close> has it:
  the first record gives the field names, empty records are skipped, a short record is
  filled with \<^verbatim>\<open>None\<close>, and the fields beyond the names go under the key \<^verbatim>\<open>None\<close>.
  A row is the dictionary of the named fields and the value under \<^verbatim>\<open>None\<close> (the
  default \<^verbatim>\<open>restkey\<close>), if any.
\<close>

record row =
  named :: "string \<rightharpoonup> string option"
  restkey :: "string list option"

definition dict_row :: "string list \<Rightarrow> string list \<Rightarrow> row" where
  "dict_row fieldnames r =
     (let d = fold (\<lambda>(k, v) m. m(k \<mapsto> Some v)) (zip fieldnames r) Map.empty;
          lf = length fieldnames;
          lr = length r
      in if lf < lr then \<lparr>named = d, restkey = Some (drop lf r)\<rparr>
         else if lf > lr then
           \<lparr>named = fold (\<lambda>k m. m(k \<mapsto> None)) (drop lr fieldnames) d, restkey = None\<rparr>
         else \<lparr>named = d, restkey = None\<rparr>)"

definition dict_reader :: "string list list \<Rightarrow> row list" where
  "dict_reader recs =
     (case recs of
        [] \<Rightarrow> []
      | fieldnames # rs \<Rightarrow> map (dict_row fieldnames) (filter (\<lambda>r. r \<noteq> []) rs))"

text \<open>\<^verbatim>\<open>row[k]\<close> inside an f-string: the value as text, or a \<^verbatim>\<open>KeyError\<close>.\<close>

definition get_item :: "row \<Rightarrow> string \<Rightarrow> error + string" where
  "get_item r k =
     (case named r k of
        None \<Rightarrow> Inl (KeyError k)
      | Some None \<Rightarrow> Inr ''None''
      | Some (Some v) \<Rightarrow> Inr v)"

definition preview :: "row \<Rightarrow> error + string" where
  "preview r =
     (case get_item r ''MSIS'' of Inl e \<Rightarrow> Inl e | Inr a \<Rightarrow>
      (case get_item r ''D1OP'' of Inl e \<Rightarrow> Inl e | Inr b \<Rightarrow>
      (case get_item r ''DTOP'' of Inl e \<Rightarrow> Inl e | Inr c \<Rightarrow>
      (case get_item r ''SCALE_SCORE'' of Inl e \<Rightarrow> Inl e | Inr d \<Rightarrow>
         Inr (''MSIS: '' @ a @ '', D1OP: '' @ b @ '', DTOP: '' @ c @ '', SCALE: '' @ d)))))"

text \<open>The decimal text of a count.\<close>

fun str_nat :: "nat \<Rightarrow> string" where
  "str_nat n =
     (if n < 10 then [''0123456789'' ! n]
      else str_nat (n div 10) @ [''0123456789'' ! (n mod 10)])"

text \<open>The loop over the rows, with the counter; an error ends it.\<close>

fun rows_loop :: "row list \<Rightarrow> nat \<Rightarrow> sys \<Rightarrow> error option \<times> nat \<times> sys" where
  "rows_loop [] count st = (None, count, st)"
| "rows_loop (r # rs) count st =
     (if count < 5 then
        (case preview r of
           Inl e \<Rightarrow> (Some e, count, st)
         | Inr line \<Rightarrow> rows_loop rs (count + 1) (print line st))
      else rows_loop rs (count + 1) st)"

definition csv_path :: string where
  "csv_path = ''Data/MAAP_Test_Data/2025_SPRING_3-8_EOC_2520.csv''"

definition inspector :: "(string \<Rightarrow> string list list) \<Rightarrow> sys \<Rightarrow> error option \<times> sys" where
  "inspector csv_reader st =
     (case read_text st csv_path of
        Inl e \<Rightarrow> (Some e, st)
      | Inr text \<Rightarrow>
          (case rows_loop (dict_reader (csv_reader text)) 0 st of
             (Some e, count, st') \<Rightarrow> (Some e, st')
           | (None, count, st') \<Rightarrow> (None, print (''Total rows: '' @ str_nat count) st')))"

section \<open>Notions used in the statements\<close>

declare makedirs.simps [simp del]
declare findall.simps [simp del]
declare str_nat.simps [simp del]

text \<open>
  The closing fence does not start inside the text \<open>c\<close> when \<open>c\<close> is followed by a
  closing fence: the fence after \<open>c\<close> is the first one.
\<close>

definition first_fence :: "string \<Rightarrow> bool" where
  "first_fence c = (\<forall>i<length c. \<not> prefix fence_close (drop i c @ fence_close))"

text \<open>What the preview line of a row is expected to show: each value, \<^verbatim>\<open>None\<close> when missing.\<close>

definition field_text :: "row \<Rightarrow> string \<Rightarrow> string" where
  "field_text r k = (case named r k of Some (Some v) \<Rightarrow> v | _ \<Rightarrow> ''None'')"

definition preview_line :: "row \<Rightarrow> string" where
  "preview_line r =
     ''MSIS: '' @ field_text r ''MSIS'' @ '', D1OP: '' @ field_text r ''D1OP'' @
     '', DTOP: '' @ field_text r ''DTOP'' @ '', SCALE: '' @ field_text r ''SCALE_SCORE''"

definition columns :: "string list" where
  "columns = [''MSIS'', ''D1OP'', ''DTOP'', ''SCALE_SCORE'']"

text \<open>
  The white space that \<^verbatim>\<open>str.strip()\<close> removes, as characters: tab, newline, vertical tab,
  form feed, carriage return, the four separators \<^verbatim>\<open>\x1c\<close> to \<^verbatim>\<open>\x1f\<close>, the space, \<^verbatim>\<open>\x85\<close> and
  the no-break space.
\<close>

definition whitespace :: string where
  "whitespace = [CHR 0x09, NL, CHR 0x0B, CHR 0x0C, CR, CHR 0x1C, CHR 0x1D, CHR 0x1E, CHR 0x1F,
                 CHR '' '', CHR 0x85, CHR 0xA0]"

subsection \<open>Concrete inputs\<close>

text \<open>
  A reader for text without quotes and carriage returns, where \<^verbatim>\<open>csv.reader\<close> splits the
  lines at the commas and gives the empty record for an empty line.
\<close>

definition lines_of :: "string \<Rightarrow> string list" where
  "lines_of s = (let ls = split_on NL s in if last ls = [] then butlast ls else ls)"

definition plain_reader :: "string \<Rightarrow> string list list" where
  "plain_reader s = map (\<lambda>l. if l = [] then [] else split_on (CHR '','') l) (lines_of s)"

text \<open>A tree that holds the CSV file with the given text, seen from the root.\<close>

definition csv_sys :: "string \<Rightarrow> sys" where
  "csv_sys d =
     \<lparr>nodes = [[''Data''] \<mapsto> Dir, [''Data'', ''MAAP_Test_Data''] \<mapsto> Dir,
               [''Data'', ''MAAP_Test_Data'', ''2025_SPRING_3-8_EOC_2520.csv''] \<mapsto> File d],
      cwd = [], stdout = []\<rparr>"

definition text10 :: string where
  "text10 = ''MSIS,D1OP,DTOP,SCALE_SCORE\<newline>1,a,b,10\<newline>2,a,b,20\<newline>3,a,b,30\<newline>4,a,b,40\<newline>5,a,b,50\<newline>6,a,b,60\<newline>7,a,b,70\<newline>8,a,b,80\<newline>9,a,b,90\<newline>10,a,b,99\<newline>''"

text \<open>A tree that holds only the input document of the extractor, in the working directory.\<close>

definition doc_sys :: "string \<Rightarrow> sys" where
  "doc_sys d =
     \<lparr>nodes = [[''work''] \<mapsto> Dir, [''work'', ''remaining_files.txt''] \<mapsto> File d],
      cwd = [''work''], stdout = []\<rparr>"

text \<open>
  A document made of sections: each has a leading text, the path of its header and the
  code of its block; the document is the leading text and the section text of each in
  turn, then a closing text. A section is well formed when its leading text holds no
  header mark, its path is one line that ends in \<^verbatim>\<open>.swift\<close> after at least one character,
  and its code holds no newline followed by a fence.
\<close>

record sect =
  sec_lead :: string
  sec_path :: string
  sec_code :: string

definition section_text :: "string \<Rightarrow> string \<Rightarrow> string" where
  "section_text p c = hdr_open @ p @ hdr_close @ c @ fence_close"

fun document :: "sect list \<Rightarrow> string \<Rightarrow> string" where
  "document [] tail = tail"
| "document (s # ss) tail = sec_lead s @ section_text (sec_path s) (sec_code s) @ document ss tail"

definition well_formed :: "sect \<Rightarrow> bool" where
  "well_formed s =
     (\<not> sublist hdr_open (sec_lead s) \<and>
      suffix ext (sec_path s) \<and> sec_path s \<noteq> ext \<and> NL \<notin> set (sec_path s) \<and>
      \<not> sublist fence_close (sec_code s))"

text \<open>The destination of a captured path.\<close>

definition dest :: "string \<Rightarrow> string" where
  "dest p = join base (strip p)"

text \<open>
  Three sections of which the first and the last have the same path, two sections with
  the same path, and a section for a text file followed by one for a Swift file.
\<close>

definition three_secs :: "sect list" where
  "three_secs =
     [\<lparr>sec_lead = ''# Files\<newline>\<newline>'', sec_path = ''a.swift'', sec_code = ''one''\<rparr>,
      \<lparr>sec_lead = ''\<newline>\<newline>'', sec_path = ''b/c.swift'', sec_code = ''two\<newline>lines''\<rparr>,
      \<lparr>sec_lead = ''\<newline>'', sec_path = ''a.swift'', sec_code = ''three''\<rparr>]"

definition dup_secs :: "sect list" where
  "dup_secs =
     [\<lparr>sec_lead = [], sec_path = ''a.swift'', sec_code = ''one''\<rparr>,
      \<lparr>sec_lead = ''\<newline>'', sec_path = ''a.swift'', sec_code = ''two''\<rparr>]"

definition doc_mixed :: string where
  "doc_mixed = ''### **a.txt**\<newline>```swift\<newline>A\<newline>```\<newline>### **b.swift**\<newline>```swift\<newline>B\<newline>```''"

text \<open>Input documents: one section for a Swift file, and the same section for a text file.\<close>

definition doc_swift :: string where
  "doc_swift = ''### **a/b/c.swift**\<newline>```swift\<newline>hello\<newline>world\<newline>```''"

definition doc_txt :: string where
  "doc_txt = ''### **a/b/c.txt**\<newline>```swift\<newline>hello\<newline>world\<newline>```''"

text \<open>A document with one section whose lines end in carriage return and newline.\<close>

definition doc_crlf :: string where
  "doc_crlf = ''### **a.swift**'' @ [CR, NL] @ ''```swift'' @ [CR, NL] @ ''x'' @ [CR, NL] @ ''y''
               @ [CR, NL] @ ''```'' @ [CR, NL]"

text \<open>
  A document whose section names a path through \<^verbatim>\<open>x/..\<close>, \<^verbatim>\<open>f\<close> and \<^verbatim>\<open>.\<close>, and a tree that
  holds the input document in the working directory and, in the base directory, a
  regular file \<^verbatim>\<open>f\<close>.
\<close>

definition doc_dot :: string where
  "doc_dot = ''### **x/../f/./a.swift**\<newline>```swift\<newline>A\<newline>```''"

definition blocked_sys :: "string \<Rightarrow> sys" where
  "blocked_sys d =
     \<lparr>nodes = [[''work''] \<mapsto> Dir, [''work'', ''remaining_files.txt''] \<mapsto> File d,
               [''Users''] \<mapsto> Dir, [''Users'', ''fredrickburns''] \<mapsto> Dir,
               [''Users'', ''fredrickburns'', ''Code_Repositories''] \<mapsto> Dir,
               [''Users'', ''fredrickburns'', ''Code_Repositories'', ''StudentAnalysisSystem'']
                 \<mapsto> Dir,
               [''Users'', ''fredrickburns'', ''Code_Repositories'', ''StudentAnalysisSystem'',
                ''f''] \<mapsto> File ''data''],
      cwd = [''work''], stdout = []\<rparr>"

lemmas eval_defs = csv_sys_def doc_sys_def csv_path_def read_text_def resolve_def start_def
  node_at_def plain_reader_def lines_of_def columns_def

section \<open>The pattern: what a match is\<close>

lemma fence_close_length: "length fence_close = 4"
  by (simp add: fence_close_def)

lemma prefix_long: "length p \<le> length x \<Longrightarrow> prefix p (x @ r) = prefix p x"
  by (metis prefix_append prefix_order.order_refl prefix_def append_eq_conv_conj take_all_iff)

lemma prefix_drop: "prefix p s \<Longrightarrow> s = p @ drop (length p) s"
  by (auto simp: prefix_def)

lemma match_code_sound:
  "match_code acc s = Some (c, r) \<Longrightarrow>
     \<exists>u. c = acc @ u \<and> s = u @ fence_close @ r \<and> first_fence u"
proof (induction acc s rule: match_code.induct)
  case (1 acc)
  then show ?case by simp
next
  case (2 acc x xs)
  show ?case
  proof (cases "prefix fence_close (x # xs)")
    case True
    with "2.prems" have "c = acc" "r = drop (length fence_close) (x # xs)" by simp_all
    with prefix_drop [OF True] show ?thesis by (auto simp: first_fence_def)
  next
    case False
    with 2 obtain u where u: "c = (acc @ [x]) @ u" "xs = u @ fence_close @ r" "first_fence u"
      by auto
    have "first_fence (x # u)"
      unfolding first_fence_def
    proof (intro allI impI)
      fix i assume i: "i < length (x # u)"
      show "\<not> prefix fence_close (drop i (x # u) @ fence_close)"
      proof (cases i)
        case 0
        have "prefix fence_close ((x # u) @ fence_close @ r) = prefix fence_close ((x # u) @ fence_close)"
          using prefix_long [of fence_close "(x # u) @ fence_close" r] by simp
        with False u 0 show ?thesis by simp
      next
        case (Suc j)
        with i u(3) show ?thesis by (simp add: first_fence_def)
      qed
    qed
    with u show ?thesis by (intro exI [of _ "x # u"]) simp
  qed
qed

lemma match_path_sound:
  "match_path acc s = Some (p, c, r) \<Longrightarrow>
     \<exists>u. p = acc @ u @ ext \<and> s = u @ ext @ hdr_close @ c @ fence_close @ r \<and> first_fence c"
proof (induction acc s rule: match_path.induct)
  case (1 acc)
  then show ?case by simp
next
  case (2 acc x xs)
  let ?t = "if prefix (ext @ hdr_close) (x # xs)
            then match_code [] (drop (length (ext @ hdr_close)) (x # xs)) else None"
  show ?case
  proof (cases ?t)
    case None
    with 2 obtain u where "p = (acc @ [x]) @ u @ ext"
      "xs = u @ ext @ hdr_close @ c @ fence_close @ r" "first_fence c"
      by auto
    then show ?thesis by (intro exI [of _ "x # u"]) simp
  next
    case (Some a)
    obtain code' rest where a: "a = (code', rest)" by (cases a)
    from Some a have pre: "prefix (ext @ hdr_close) (x # xs)"
      and m: "match_code [] (drop (length (ext @ hdr_close)) (x # xs)) = Some (code', rest)"
      by (simp_all split: if_splits)
    from "2.prems" Some a have eq: "p = acc @ ext" "c = code'" "r = rest" by simp_all
    from match_code_sound [OF m] have
      d: "drop (length (ext @ hdr_close)) (x # xs) = code' @ fence_close @ rest" and ff: "first_fence code'"
      by auto
    from prefix_drop [OF pre] d have "x # xs = (ext @ hdr_close) @ code' @ fence_close @ rest"
      by simp
    with eq ff show ?thesis by (intro exI [of _ "[]"]) simp
  qed
qed

lemma match_at_sound:
  assumes "match_at s = Some (p, c, r)"
  shows "\<exists>stem. stem \<noteq> [] \<and> p = stem @ ext \<and>
           s = hdr_open @ p @ hdr_close @ c @ fence_close @ r \<and> first_fence c"
proof -
  from assms obtain x xs where pre: "prefix hdr_open s"
    and d: "drop (length hdr_open) s = x # xs"
    and m: "match_path [x] xs = Some (p, c, r)"
    by (auto simp: match_at_def split: if_splits list.splits)
  from match_path_sound [OF m] obtain u where
    u: "p = [x] @ u @ ext" "xs = u @ ext @ hdr_close @ c @ fence_close @ r" "first_fence c"
    by blast
  from prefix_drop [OF pre] d have "s = hdr_open @ x # xs" by simp
  with u show ?thesis by (intro exI [of _ "x # u"]) simp
qed

lemma findall_sound:
  "(p, c) \<in> set (findall s) \<Longrightarrow>
     \<exists>pre post stem. stem \<noteq> [] \<and> p = stem @ ext \<and>
        s = pre @ hdr_open @ p @ hdr_close @ c @ fence_close @ post \<and> first_fence c"
proof (induction s rule: findall.induct)
  case (1 s)
  show ?case
  proof (cases "match_at s")
    case None
    show ?thesis
    proof (cases s)
      case Nil
      with None "1.prems" show ?thesis by (simp add: findall.simps)
    next
      case (Cons x xs)
      with None "1.prems" have "(p, c) \<in> set (findall xs)" by (simp add: findall.simps)
      from "1.IH"(1) [OF None Cons this] obtain pre post stem where
        "stem \<noteq> []" "p = stem @ ext"
        "xs = pre @ hdr_open @ p @ hdr_close @ c @ fence_close @ post" "first_fence c"
        by blast
      with Cons show ?thesis by (intro exI [of _ "x # pre"] exI [of _ post] exI [of _ stem]) simp
    qed
  next
    case (Some a)
    obtain p' c' rest where a: "a = (p', c', rest)" by (cases a)
    from Some a "1.prems" have mem: "(p, c) = (p', c') \<or> (p, c) \<in> set (findall rest)"
      by (simp add: findall.simps)
    from match_at_sound [of s p' c' rest] Some a obtain stem' where
      s': "stem' \<noteq> []" "p' = stem' @ ext"
      "s = hdr_open @ p' @ hdr_close @ c' @ fence_close @ rest" "first_fence c'"
      by auto
    from mem show ?thesis
    proof
      assume "(p, c) = (p', c')"
      with s' show ?thesis
        by (intro exI [of _ "[]"] exI [of _ rest] exI [of _ stem']) simp
    next
      assume "(p, c) \<in> set (findall rest)"
      from "1.IH"(2) [OF Some [unfolded a] refl refl this] obtain pre post stem where
        r: "stem \<noteq> []" "p = stem @ ext"
        "rest = pre @ hdr_open @ p @ hdr_close @ c @ fence_close @ post" "first_fence c"
        by blast
      with s' show ?thesis
        by (intro exI [of _ "hdr_open @ p' @ hdr_close @ c' @ fence_close @ pre"]
              exI [of _ post] exI [of _ stem]) simp
    qed
  qed
qed


section \<open>Rows and previews\<close>

lemma dom_fold_pairs:
  "dom (fold (\<lambda>(k, v) m. m(k \<mapsto> Some v)) kvs m) = dom m \<union> fst ` set kvs"
  by (induction kvs arbitrary: m) auto

lemma dom_fold_fill:
  "dom (fold (\<lambda>k m. m(k \<mapsto> None)) ks m) = dom m \<union> set ks"
  by (induction ks arbitrary: m) auto

lemma fst_zip: "fst ` set (zip f r) = set (take (length r) f)"
  by (metis map_fst_zip_take set_map take_all_iff length_take linorder_le_cases min_def take_take)

lemma dict_row_dom: "dom (named (dict_row f r)) = set f"
proof -
  have "set (take (length r) f) \<union> set (drop (length r) f) = set f"
    by (metis append_take_drop_id set_append)
  moreover have "length f \<le> length r \<Longrightarrow> set (take (length r) f) = set f" by simp
  ultimately show ?thesis
    by (auto simp: dict_row_def Let_def dom_fold_pairs dom_fold_fill fst_zip)
qed

lemma get_item_present:
  "k \<in> set f \<Longrightarrow> get_item (dict_row f r) k = Inr (field_text (dict_row f r) k)"
proof -
  assume "k \<in> set f"
  then have "k \<in> dom (named (dict_row f r))" by (simp add: dict_row_dom)
  then show ?thesis by (auto simp: get_item_def field_text_def split: option.splits)
qed

lemma get_item_absent:
  "k \<notin> set f \<Longrightarrow> get_item (dict_row f r) k = Inl (KeyError k)"
proof -
  assume "k \<notin> set f"
  then have "k \<notin> dom (named (dict_row f r))" by (simp add: dict_row_dom)
  then show ?thesis by (auto simp: get_item_def split: option.splits)
qed

lemma preview_present:
  "set columns \<subseteq> set f \<Longrightarrow> preview (dict_row f r) = Inr (preview_line (dict_row f r))"
  by (simp add: preview_def preview_line_def columns_def get_item_present)

lemma preview_absent:
  assumes "\<not> set columns \<subseteq> set f"
  shows "\<exists>k. k \<in> set columns \<and> k \<notin> set f \<and> preview (dict_row f r) = Inl (KeyError k)"
proof -
  consider "''MSIS'' \<notin> set f"
    | "''MSIS'' \<in> set f" "''D1OP'' \<notin> set f"
    | "''MSIS'' \<in> set f" "''D1OP'' \<in> set f" "''DTOP'' \<notin> set f"
    | "''MSIS'' \<in> set f" "''D1OP'' \<in> set f" "''DTOP'' \<in> set f" "''SCALE_SCORE'' \<notin> set f"
    using assms by (auto simp: columns_def)
  then show ?thesis
  proof cases
    case 1
    then show ?thesis by (intro exI [of _ "''MSIS''"]) (simp add: preview_def columns_def get_item_absent)
  next
    case 2
    then show ?thesis by (intro exI [of _ "''D1OP''"]) (simp add: preview_def columns_def get_item_absent get_item_present)
  next
    case 3
    then show ?thesis by (intro exI [of _ "''DTOP''"]) (simp add: preview_def columns_def get_item_absent get_item_present)
  next
    case 4
    then show ?thesis by (intro exI [of _ "''SCALE_SCORE''"]) (simp add: preview_def columns_def get_item_absent get_item_present)
  qed
qed

lemma rows_loop_ok:
  "\<forall>r\<in>set rows. preview r = Inr (preview_line r) \<Longrightarrow>
   rows_loop rows n st =
     (None, n + length rows, st\<lparr>stdout := stdout st @ map preview_line (take (5 - n) rows)\<rparr>)"
proof (induction rows arbitrary: n st)
  case Nil
  then show ?case by simp
next
  case (Cons r rows)
  show ?case
  proof (cases "n < 5")
    case True
    then have "5 - n = Suc (4 - n)" by simp
    with True Cons show ?thesis by (simp add: print_def)
  next
    case False
    with Cons show ?thesis by simp
  qed
qed

lemma str_nat_0: "str_nat 0 = ''0''" by (simp add: str_nat.simps)
lemma str_nat_10: "str_nat 10 = ''10''" by (simp add: str_nat.simps)
lemma str_nat_1234: "str_nat 1234 = ''1234''" by (simp add: str_nat.simps)
lemma str_nat_7: "str_nat 7 = ''7''" by (simp add: str_nat.simps)


section \<open>The file tree: paths, directories and writes\<close>

subsection \<open>Splitting paths\<close>

definition names :: "string \<Rightarrow> string list" where
  "names p = filter (\<lambda>c. c \<noteq> []) (split_sep p)"

definition raw_head :: "string \<Rightarrow> string" where
  "raw_head p = rev (dropWhile (\<lambda>c. c \<noteq> sep) (rev p))"

text \<open>
  No regular file is in the way of a list of names: walking the names from a directory,
  where a name may be missing, never comes to a regular file.
\<close>

fun no_file :: "(string list \<rightharpoonup> node) \<Rightarrow> string list \<Rightarrow> string list \<Rightarrow> bool" where
  "no_file ns cur [] = (case node_at ns cur of Some (File _) \<Rightarrow> False | _ \<Rightarrow> True)"
| "no_file ns cur (c # cs) =
     ((case node_at ns cur of Some (File _) \<Rightarrow> False | _ \<Rightarrow> True) \<and>
      (if c = [] \<or> c = ''.'' then no_file ns cur cs
       else if c = ''..'' then no_file ns (butlast cur) cs
       else no_file ns (cur @ [c]) cs))"

text \<open>
  The tree of the model sets no limit on the length of a name or of a path and refuses no
  character in a name. A path is portable when it stays within such limits of a file
  system: no NUL, characters of one byte, fewer than 1024 characters in all and at most
  255 in a name.
\<close>

definition portable :: "string \<Rightarrow> bool" where
  "portable p =
     (CHR 0x00 \<notin> set p \<and> (\<forall>x\<in>set p. (of_char x :: nat) < 128) \<and> length p < 1024 \<and>
      (\<forall>c\<in>set (names p). length c \<le> 255))"


lemma split_on_ne [simp]: "split_on d s \<noteq> []"
  by (induction s) (auto split: list.splits)

lemma split_on_append: "split_on d (a @ d # b) = split_on d a @ split_on d b"
  by (induction a) (auto split: list.splits)

lemma split_on_none: "d \<notin> set t \<Longrightarrow> split_on d t = [t]"
  by (induction t) (auto split: list.splits)

lemma names_Nil [simp]: "names [] = []"
  by (simp add: names_def)

lemma names_append_sep: "names (a @ sep # b) = names a @ names b"
  by (simp add: names_def split_on_append)

lemma names_no_sep: "sep \<notin> set t \<Longrightarrow> names t = (if t = [] then [] else [t])"
  by (simp add: names_def split_on_none)

lemma names_append_seps: "names (a @ replicate j sep) = names a"
proof (induction j)
  case 0
  then show ?case by simp
next
  case (Suc j)
  have "a @ replicate (Suc j) sep = (a @ replicate j sep) @ sep # []"
    by (simp add: replicate_append_same)
  then have "names (a @ replicate (Suc j) sep) = names (a @ replicate j sep) @ names []"
    by (simp only: names_append_sep)
  with Suc show ?case by simp
qed

lemma rstrip_decomp: "\<exists>j. p = rstrip_sep p @ replicate j sep"
proof -
  let ?tw = "takeWhile (\<lambda>c. c = sep) (rev p)"
  let ?dw = "dropWhile (\<lambda>c. c = sep) (rev p)"
  have "\<forall>y\<in>set ?tw. y = sep" by (auto dest: set_takeWhileD)
  then have tw: "replicate (length ?tw) sep = ?tw" by (rule replicate_length_same)
  have "rev (rev p) = rev (?tw @ ?dw)" by simp
  then have "p = rev ?dw @ rev ?tw" by (simp only: rev_append rev_rev_ident)
  also have "rev ?tw = replicate (length ?tw) sep"
    by (subst tw [symmetric]) (simp only: rev_replicate)
  finally have "p = rstrip_sep p @ replicate (length ?tw) sep"
    by (simp only: rstrip_sep_def)
  then show ?thesis ..
qed

lemma rstrip_last: "rstrip_sep p \<noteq> [] \<Longrightarrow> last (rstrip_sep p) \<noteq> sep"
proof -
  assume "rstrip_sep p \<noteq> []"
  then have ne: "dropWhile (\<lambda>c. c = sep) (rev p) \<noteq> []" by (simp add: rstrip_sep_def)
  then have "\<not> hd (dropWhile (\<lambda>c. c = sep) (rev p)) = sep" by (rule hd_dropWhile)
  with ne show ?thesis by (simp add: rstrip_sep_def last_rev)
qed

lemma names_rstrip: "names (rstrip_sep p) = names p"
  by (metis names_append_seps rstrip_decomp)

lemma rstrip_prefix: "prefix (rstrip_sep p) p"
  by (metis prefixI rstrip_decomp)

lemma psplit_parts: "p = raw_head p @ snd (psplit p)"
  by (simp add: psplit_def raw_head_def Let_def flip: rev_append)

lemma snd_psplit_no_sep: "sep \<notin> set (snd (psplit p))"
  by (auto simp: psplit_def Let_def dest: set_takeWhileD)

lemma raw_head_Nil: "(raw_head p = []) = (sep \<notin> set p)"
  by (auto simp: raw_head_def dropWhile_eq_Nil_conv)

lemma raw_head_last: "raw_head p \<noteq> [] \<Longrightarrow> last (raw_head p) = sep"
proof -
  assume "raw_head p \<noteq> []"
  then have ne: "dropWhile (\<lambda>c. c \<noteq> sep) (rev p) \<noteq> []" by (simp add: raw_head_def)
  then have "\<not> hd (dropWhile (\<lambda>c. c \<noteq> sep) (rev p)) \<noteq> sep" by (rule hd_dropWhile)
  with ne show ?thesis by (simp add: raw_head_def last_rev)
qed

lemma rstrip_Nil [simp]: "rstrip_sep [] = []"
  by (simp add: rstrip_sep_def)

lemma fst_psplit: "fst (psplit p) =
    (if rstrip_sep (raw_head p) \<noteq> [] then rstrip_sep (raw_head p) else raw_head p)"
proof -
  have "fst (psplit p) =
      (if raw_head p \<noteq> [] \<and> rstrip_sep (raw_head p) \<noteq> []
       then rstrip_sep (raw_head p) else raw_head p)"
    by (simp add: psplit_def raw_head_def Let_def)
  then show ?thesis by (cases "raw_head p = []") simp_all
qed

lemma names_fst_psplit: "names (fst (psplit p)) = names (raw_head p)"
  by (simp add: fst_psplit names_rstrip)

lemma fst_psplit_prefix: "prefix (fst (psplit p)) p"
proof -
  have "prefix (raw_head p) p" by (metis prefixI psplit_parts)
  moreover have "prefix (rstrip_sep (raw_head p)) (raw_head p)" by (rule rstrip_prefix)
  ultimately show ?thesis by (auto simp: fst_psplit)
qed

lemma fst_psplit_Nil: "(fst (psplit p) = []) = (sep \<notin> set p)"
proof -
  have "(fst (psplit p) = []) = (raw_head p = [])"
    by (cases "raw_head p = []") (simp_all add: fst_psplit)
  then show ?thesis by (simp only: raw_head_Nil)
qed

text \<open>The names of a path: those of its directory name, then its last name.\<close>

lemma split_sep_psplit:
  "split_sep p =
     (if sep \<in> set p then split_sep (butlast (raw_head p)) else []) @ [snd (psplit p)]"
proof (cases "sep \<in> set p")
  case False
  then have "raw_head p = []" by (simp add: raw_head_Nil)
  with psplit_parts [of p] have "snd (psplit p) = p" by simp
  with False show ?thesis by (simp add: split_on_none)
next
  case True
  then have ne: "raw_head p \<noteq> []" by (simp add: raw_head_Nil)
  with raw_head_last have "raw_head p = butlast (raw_head p) @ [sep]"
    by (metis append_butlast_last_id)
  with psplit_parts [of p] have "p = butlast (raw_head p) @ sep # snd (psplit p)"
    by (metis append.assoc append_Cons append_Nil)
  then have "split_sep p = split_sep (butlast (raw_head p)) @ split_sep (snd (psplit p))"
    by (metis split_on_append)
  with True snd_psplit_no_sep show ?thesis by (simp add: split_on_none)
qed

lemma last_split_sep: "last (split_sep p) = snd (psplit p)"
  by (subst split_sep_psplit) simp

lemma butlast_split_sep:
  "filter (\<lambda>c. c \<noteq> []) (butlast (split_sep p)) = names (fst (psplit p))"
proof (cases "sep \<in> set p")
  case False
  then show ?thesis
    by (subst split_sep_psplit) (simp add: names_fst_psplit raw_head_Nil [THEN iffD2])
next
  case True
  then have ne: "raw_head p \<noteq> []" by (simp add: raw_head_Nil)
  with raw_head_last have "raw_head p = butlast (raw_head p) @ sep # []"
    by (metis append_butlast_last_id)
  then have "names (raw_head p) = names (butlast (raw_head p)) @ names []"
    by (metis names_append_sep)
  then have "names (fst (psplit p)) = names (butlast (raw_head p))"
    by (simp add: names_fst_psplit)
  moreover from True have "butlast (split_sep p) = split_sep (butlast (raw_head p))"
    by (subst split_sep_psplit) simp
  ultimately show ?thesis by (simp add: names_def)
qed

lemma names_psplit:
  "names p = names (fst (psplit p)) @ (if snd (psplit p) = [] then [] else [snd (psplit p)])"
proof -
  have "names p = filter (\<lambda>c. c \<noteq> []) (butlast (split_sep p) @ [last (split_sep p)])"
    by (simp add: names_def)
  then show ?thesis
    by (simp add: butlast_split_sep last_split_sep del: append_butlast_last_id)
qed

lemma snd_psplit_ne: "p \<noteq> [] \<Longrightarrow> last p \<noteq> sep \<Longrightarrow> snd (psplit p) \<noteq> []"
  by (cases "rev p") (auto simp: psplit_def Let_def last_rev)

subsection \<open>Walking the tree\<close>

definition grows :: "(string list \<rightharpoonup> node) \<Rightarrow> (string list \<rightharpoonup> node) \<Rightarrow> bool" where
  "grows ns ns' =
     (\<forall>k. (node_at ns k = Some Dir \<longrightarrow> node_at ns' k = Some Dir) \<and>
          (\<forall>d. node_at ns k = Some (File d) \<longrightarrow> (\<exists>d'. node_at ns' k = Some (File d'))))"

definition dir_at :: "(string list \<rightharpoonup> node) \<Rightarrow> string list \<Rightarrow> string list \<Rightarrow> bool" where
  "dir_at ns cur cs = (case walk ns cur cs of Inl _ \<Rightarrow> False | Inr k \<Rightarrow> node_at ns k = Some Dir)"

lemma grows_refl: "grows ns ns"
  by (simp add: grows_def)

lemma grows_trans: "grows a b \<Longrightarrow> grows b c \<Longrightarrow> grows a c"
  unfolding grows_def by (meson)

lemma grows_Dir: "grows ns ns' \<Longrightarrow> node_at ns k = Some Dir \<Longrightarrow> node_at ns' k = Some Dir"
  by (simp add: grows_def)

lemma grows_Some: "grows ns ns' \<Longrightarrow> node_at ns k = Some x \<Longrightarrow> \<exists>y. node_at ns' k = Some y"
  by (cases x) (auto simp: grows_def)

lemma walk_Cons_dir: "walk ns k (y # ys) = Inr r \<Longrightarrow> node_at ns k = Some Dir"
  by (auto split: option.splits node.splits)

lemma walk_append:
  "walk ns cur (xs @ ys) = (case walk ns cur xs of Inl e \<Rightarrow> Inl e | Inr k \<Rightarrow> walk ns k ys)"
  by (induction xs arbitrary: cur) (auto split: option.splits node.splits)

lemma walk_mono: "grows ns ns' \<Longrightarrow> walk ns cur cs = Inr k \<Longrightarrow> walk ns' cur cs = Inr k"
proof (induction cs arbitrary: cur)
  case Nil
  then show ?case by simp
next
  case (Cons c cs)
  from Cons.prems(2) have d: "node_at ns cur = Some Dir" by (rule walk_Cons_dir)
  with Cons.prems(1) have d': "node_at ns' cur = Some Dir" by (rule grows_Dir)
  consider "c = [] \<or> c = ''.''" | "\<not> (c = [] \<or> c = ''.'')" "c = ''..''"
    | "\<not> (c = [] \<or> c = ''.'')" "c \<noteq> ''..''" by blast
  then show ?case
  proof cases
    case 1
    with Cons.prems(2) d have "walk ns cur cs = Inr k" by simp
    from Cons.IH [OF Cons.prems(1) this] 1 d' show ?thesis by simp
  next
    case 2
    with Cons.prems(2) d have "walk ns (butlast cur) cs = Inr k" by simp
    from Cons.IH [OF Cons.prems(1) this] 2 d' show ?thesis by simp
  next
    case 3
    with Cons.prems(2) d obtain x where x: "node_at ns (cur @ [c]) = Some x"
      and w: "walk ns (cur @ [c]) cs = Inr k"
      by (auto split: option.splits)
    from grows_Some [OF Cons.prems(1) x] obtain y where "node_at ns' (cur @ [c]) = Some y" ..
    with Cons.IH [OF Cons.prems(1) w] 3 d' show ?thesis by simp
  qed
qed

lemma dir_at_Nil: "dir_at ns cur [] = (node_at ns cur = Some Dir)"
  by (simp add: dir_at_def)

lemma dir_at_Cons:
  "dir_at ns cur (c # cs) =
     (node_at ns cur = Some Dir \<and>
      (if c = [] \<or> c = ''.'' then dir_at ns cur cs
       else if c = ''..'' then dir_at ns (butlast cur) cs
       else node_at ns (cur @ [c]) \<noteq> None \<and> dir_at ns (cur @ [c]) cs))"
  by (auto simp: dir_at_def split: option.splits node.splits sum.splits)

lemma dir_at_start: "dir_at ns cur cs \<Longrightarrow> node_at ns cur = Some Dir"
  by (cases cs) (simp_all add: dir_at_Nil dir_at_Cons)

lemma dir_at_append:
  "dir_at ns cur (xs @ ys) = (\<exists>k. walk ns cur xs = Inr k \<and> dir_at ns k ys)"
  by (auto simp: dir_at_def walk_append split: sum.splits)

lemma dir_at_prefix: "dir_at ns cur (xs @ ys) \<Longrightarrow> dir_at ns cur xs"
proof -
  assume "dir_at ns cur (xs @ ys)"
  then obtain k where k: "walk ns cur xs = Inr k" "dir_at ns k ys"
    by (auto simp: dir_at_append)
  from k(2) have "node_at ns k = Some Dir" by (rule dir_at_start)
  with k(1) show ?thesis by (simp add: dir_at_def)
qed

lemma dir_at_filter: "dir_at ns cur (filter (\<lambda>c. c \<noteq> []) cs) = dir_at ns cur cs"
proof (induction cs arbitrary: cur)
  case Nil
  then show ?case by simp
next
  case (Cons c cs)
  show ?case
  proof (cases "c = []")
    case True
    have "dir_at ns cur cs \<Longrightarrow> node_at ns cur = Some Dir" by (rule dir_at_start)
    with True Cons show ?thesis by (auto simp: dir_at_Cons)
  next
    case False
    with Cons show ?thesis by (simp add: dir_at_Cons)
  qed
qed

lemma dir_at_mono: "grows ns ns' \<Longrightarrow> dir_at ns cur cs \<Longrightarrow> dir_at ns' cur cs"
proof -
  assume g: "grows ns ns'" and "dir_at ns cur cs"
  then obtain k where k: "walk ns cur cs = Inr k" "node_at ns k = Some Dir"
    by (auto simp: dir_at_def split: sum.splits)
  from walk_mono [OF g k(1)] grows_Dir [OF g k(2)] show ?thesis by (simp add: dir_at_def)
qed

subsection \<open>Directories\<close>

lemma isdir_split: "isdir st p = (p \<noteq> [] \<and> dir_at (nodes st) (start st p) (split_sep p))"
  by (auto simp: isdir_def resolve_def dir_at_def split: sum.splits option.splits)

lemma isdir_names: "isdir st p = (p \<noteq> [] \<and> dir_at (nodes st) (start st p) (names p))"
  by (simp add: isdir_split names_def dir_at_filter)

lemma isdir_exists: "isdir st p \<Longrightarrow> exists st p"
  by (auto simp: isdir_def exists_def split: sum.splits)

lemma start_prefix: "prefix q p \<Longrightarrow> q \<noteq> [] \<Longrightarrow> start st q = start st p"
  by (auto simp: start_def prefix_def)

lemma isdir_mono: "grows (nodes st) (nodes t) \<Longrightarrow> cwd t = cwd st \<Longrightarrow> isdir st p \<Longrightarrow> isdir t p"
  by (auto simp: isdir_split start_def dest: dir_at_mono)

lemma parent_isdir:
  assumes "dirname p \<noteq> []" and "dir_at (nodes st) (start st p) (butlast (split_sep p))"
  shows "isdir st (dirname p)"
proof -
  from assms(1) have "start st (dirname p) = start st p"
    unfolding dirname_def by (intro start_prefix fst_psplit_prefix)
  moreover from assms(2) have "dir_at (nodes st) (start st p) (names (dirname p))"
    by (simp add: dirname_def dir_at_filter flip: butlast_split_sep)
  ultimately show ?thesis using assms(1) by (simp add: isdir_names)
qed

lemma isdir_fst_psplit:
  assumes "isdir st q" and "fst (psplit q) \<noteq> []"
  shows "isdir st (fst (psplit q))"
proof -
  from assms(1) have "dir_at (nodes st) (start st q)
      (names (fst (psplit q)) @ (if snd (psplit q) = [] then [] else [snd (psplit q)]))"
    by (simp add: isdir_names flip: names_psplit)
  then have "dir_at (nodes st) (start st q) (names (fst (psplit q)))"
    by (rule dir_at_prefix)
  moreover from assms(2) have "start st (fst (psplit q)) = start st q"
    by (intro start_prefix fst_psplit_prefix)
  ultimately show ?thesis using assms(2) by (simp add: isdir_names)
qed

lemma psplit_Nil [simp]: "psplit [] = ([], [])"
  by (simp add: psplit_def)

lemma isdir_head:
  assumes "isdir st name" and "fst (split2 name) \<noteq> []"
  shows "isdir st (fst (split2 name))"
proof (cases "snd (psplit name) = []")
  case True
  then have s: "split2 name = psplit (fst (psplit name))" by (simp add: split2_def)
  with assms(2) have "fst (psplit name) \<noteq> []" by (cases "fst (psplit name) = []") simp_all
  with assms(1) have "isdir st (fst (psplit name))" by (rule isdir_fst_psplit)
  from isdir_fst_psplit [OF this] assms(2) s show ?thesis by simp
next
  case False
  then have "split2 name = psplit name" by (simp add: split2_def)
  with isdir_fst_psplit [OF assms(1)] assms(2) show ?thesis by simp
qed

lemma isdir_rstrip:
  assumes "isdir st name" and "rstrip_sep name \<noteq> []"
  shows "isdir st (rstrip_sep name)"
proof -
  from assms(2) have "start st (rstrip_sep name) = start st name"
    by (intro start_prefix rstrip_prefix)
  with assms show ?thesis by (simp add: isdir_names names_rstrip)
qed

lemma mkdir_existing:
  assumes "isdir st name"
  shows "\<exists>e. mkdir name st = Inl e"
proof (cases "rstrip_sep name = []")
  case True
  then show ?thesis by (simp add: mkdir_def)
next
  case False
  let ?q = "rstrip_sep name"
  let ?n = "last (split_sep ?q)"
  from assms have ne: "name \<noteq> []" by (simp add: isdir_split)
  from isdir_rstrip [OF assms False]
  have "dir_at (nodes st) (start st ?q) (butlast (split_sep ?q) @ [?n])"
    by (simp add: isdir_split)
  then obtain k where k: "walk (nodes st) (start st ?q) (butlast (split_sep ?q)) = Inr k"
    and d: "dir_at (nodes st) k [?n]"
    unfolding dir_at_append by blast
  from False have "?n \<noteq> []"
    by (simp add: last_split_sep snd_psplit_ne rstrip_last)
  with d have "node_at (nodes st) k = Some Dir"
    and "?n = ''.'' \<or> ?n = ''..'' \<or> node_at (nodes st) (k @ [?n]) \<noteq> None"
    by (auto simp: dir_at_Cons split: if_splits)
  with k False ne show ?thesis
    by (auto simp: mkdir_def Let_def)
qed

lemma makedirs_existing:
  assumes "isdir st name"
  shows "makedirs name st = (None, st)"
proof -
  from mkdir_existing [OF assms] assms have ok: "mkdir_ok name st = (None, st)"
    by (auto simp: mkdir_ok_def)
  have "fst (split2 name) \<noteq> [] \<Longrightarrow> exists st (fst (split2 name))"
    using isdir_head [OF assms] by (simp add: isdir_exists)
  with ok show ?thesis by (subst makedirs.simps) auto
qed

text \<open>After \<^verbatim>\<open>mkdir\<close> the name is a directory; so it is after \<^verbatim>\<open>makedirs\<close>, when that ran \<^verbatim>\<open>mkdir\<close>.\<close>

lemma mkdir_Inr:
  assumes "mkdir p st = Inr st'"
  obtains k where "rstrip_sep p \<noteq> []"
    and "walk (nodes st) (start st (rstrip_sep p)) (butlast (split_sep (rstrip_sep p))) = Inr k"
    and "node_at (nodes st) k = Some Dir"
    and "last (split_sep (rstrip_sep p)) \<noteq> ''.''" and "last (split_sep (rstrip_sep p)) \<noteq> ''..''"
    and "node_at (nodes st) (k @ [last (split_sep (rstrip_sep p))]) = None"
    and "st' = st\<lparr>nodes := (nodes st)(k @ [last (split_sep (rstrip_sep p))] \<mapsto> Dir)\<rparr>"
  using assms
  by (auto simp: mkdir_def Let_def split: if_splits sum.splits option.splits node.splits)

lemma grows_new:
  assumes "node_at ns k = None"
  shows "grows ns (ns(k \<mapsto> x))"
  using assms by (auto simp: grows_def node_at_def split: if_splits)

lemma mkdir_isdir:
  assumes "mkdir p st = Inr st'"
  shows "isdir st' p"
proof -
  let ?q = "rstrip_sep p"
  let ?n = "last (split_sep ?q)"
  from assms obtain k where q: "?q \<noteq> []"
    and w: "walk (nodes st) (start st ?q) (butlast (split_sep ?q)) = Inr k"
    and d: "node_at (nodes st) k = Some Dir"
    and n1: "?n \<noteq> ''.''" and n2: "?n \<noteq> ''..''"
    and new: "node_at (nodes st) (k @ [?n]) = None"
    and st': "st' = st\<lparr>nodes := (nodes st)(k @ [?n] \<mapsto> Dir)\<rparr>"
    by (rule mkdir_Inr)
  let ?ns' = "(nodes st)(k @ [?n] \<mapsto> Dir)"
  have n0: "?n \<noteq> []" using q by (simp add: last_split_sep snd_psplit_ne rstrip_last)
  have g: "grows (nodes st) ?ns'" using new by (rule grows_new)
  from walk_mono [OF g w] have w': "walk ?ns' (start st ?q) (butlast (split_sep ?q)) = Inr k" .
  from grows_Dir [OF g d] have dk: "node_at ?ns' k = Some Dir" .
  have nk: "node_at ?ns' (k @ [?n]) = Some Dir" by (simp add: node_at_def)
  have one: "walk ?ns' k [?n] = Inr (k @ [?n])" using dk nk n0 n1 n2 by simp
  have "walk ?ns' (start st ?q) (butlast (split_sep ?q) @ [?n]) = walk ?ns' k [?n]"
    by (subst walk_append) (simp only: w' sum.case)
  with one have wp: "walk ?ns' (start st ?q) (split_sep ?q) = Inr (k @ [?n])" by simp
  have nn: "nodes st' = ?ns'" and c: "cwd st' = cwd st" using st' by simp_all
  from c have s: "start st' ?q = start st ?q" by (simp add: start_def)
  have "dir_at (nodes st') (start st' ?q) (split_sep ?q)"
    by (simp add: dir_at_def nn s wp nk)
  with q have "isdir st' ?q" by (simp add: isdir_split)
  then have "dir_at (nodes st') (start st' ?q) (names p)"
    by (simp add: isdir_names names_rstrip)
  moreover have "start st' ?q = start st' p" using q by (intro start_prefix rstrip_prefix)
  moreover from q have "p \<noteq> []" by auto
  ultimately show ?thesis by (simp add: isdir_names)
qed

lemma mkdir_ok_isdir: "mkdir_ok name st = (None, st') \<Longrightarrow> isdir st' name"
  by (auto simp: mkdir_ok_def split: sum.splits if_splits dest: mkdir_isdir)

lemma makedirs_isdir:
  assumes "makedirs name st = (None, st')"
    and "snd (split2 name) \<noteq> ''.'' \<or> exists st (fst (split2 name))"
  shows "isdir st' name"
proof (cases "fst (split2 name) \<noteq> [] \<and> snd (split2 name) \<noteq> []
                 \<and> \<not> exists st (fst (split2 name))")
  case False
  with assms(1) have "mkdir_ok name st = (None, st')"
    by (subst (asm) makedirs.simps) auto
  then show ?thesis by (rule mkdir_ok_isdir)
next
  case True
  with assms(2) have t: "snd (split2 name) \<noteq> ''.''" by blast
  obtain r1 st1 where m: "makedirs (fst (split2 name)) st = (r1, st1)"
    by (cases "makedirs (fst (split2 name)) st")
  from assms(1) True m t have "mkdir_ok name st1 = (None, st')"
    by (subst (asm) makedirs.simps) (auto split: option.splits if_splits)
  then show ?thesis by (rule mkdir_ok_isdir)
qed

subsection \<open>What the operations change\<close>

definition extends :: "sys \<Rightarrow> sys \<Rightarrow> bool" where
  "extends st st' =
     (cwd st' = cwd st \<and> stdout st' = stdout st \<and>
      (\<forall>k. nodes st' k = nodes st k \<or> (node_at (nodes st) k = None \<and> nodes st' k = Some Dir)))"

lemma extends_refl: "extends st st"
  by (simp add: extends_def)

lemma extends_trans:
  assumes "extends a b" and "extends b c"
  shows "extends a c"
proof -
  have "nodes c k = nodes a k \<or> (node_at (nodes a) k = None \<and> nodes c k = Some Dir)" for k
  proof -
    from assms(1) have ab: "nodes b k = nodes a k \<or> (node_at (nodes a) k = None \<and> nodes b k = Some Dir)"
      by (simp add: extends_def)
    from assms(2) have bc: "nodes c k = nodes b k \<or> (node_at (nodes b) k = None \<and> nodes c k = Some Dir)"
      by (simp add: extends_def)
    from ab bc show ?thesis by (auto simp: node_at_def split: if_splits)
  qed
  with assms show ?thesis by (simp add: extends_def)
qed

lemma extends_grows: "extends st st' \<Longrightarrow> grows (nodes st) (nodes st')"
  unfolding extends_def grows_def node_at_def
  by (metis option.distinct(1))

lemma mkdir_extends: "mkdir p st = Inr st' \<Longrightarrow> extends st st'"
  by (auto simp: mkdir_def Let_def extends_def node_at_def
      split: if_splits sum.splits option.splits node.splits)

lemma mkdir_ok_extends: "mkdir_ok p st = (r, st') \<Longrightarrow> extends st st'"
  by (auto simp: mkdir_ok_def extends_refl split: sum.splits if_splits dest: mkdir_extends)

lemma makedirs_extends: "makedirs name st = (r, st') \<Longrightarrow> extends st st'"
proof (induction name st arbitrary: r st' rule: makedirs.induct)
  case (1 name st)
  show ?case
  proof (cases "fst (split2 name) \<noteq> [] \<and> snd (split2 name) \<noteq> []
                 \<and> \<not> exists st (fst (split2 name))")
    case False
    with "1.prems" have "mkdir_ok name st = (r, st')"
      by (subst (asm) makedirs.simps) auto
    then show ?thesis by (rule mkdir_ok_extends)
  next
    case True
    obtain r1 st1 where m: "makedirs (fst (split2 name)) st = (r1, st1)"
      by (cases "makedirs (fst (split2 name)) st")
    from "1.IH" [OF True m] have e1: "extends st st1" .
    from "1.prems" True m have "(r, st') = (r1, st1) \<or> (r, st') = (None, st1)
        \<or> mkdir_ok name st1 = (r, st')"
      by (subst (asm) makedirs.simps) (auto split: option.splits if_splits)
    then show ?thesis
    proof (elim disjE)
      assume "mkdir_ok name st1 = (r, st')"
      then have "extends st1 st'" by (rule mkdir_ok_extends)
      with e1 show ?thesis by (rule extends_trans)
    qed (use e1 in auto)
  qed
qed

subsection \<open>Making directories where no file is in the way\<close>

lemma no_file_here: "no_file ns cur cs \<Longrightarrow> node_at ns cur \<noteq> Some (File d)"
  by (cases cs) (auto split: option.splits node.splits)

lemma no_file_extends:
  assumes "extends st st1"
  shows "no_file (nodes st) cur cs \<Longrightarrow> no_file (nodes st1) cur cs"
proof (induction cs arbitrary: cur)
  case Nil
  from assms have "nodes st1 cur = nodes st cur \<or> (node_at (nodes st) cur = None \<and> nodes st1 cur = Some Dir)"
    by (simp add: extends_def)
  with Nil show ?case by (auto simp: node_at_def split: option.splits node.splits if_splits)
next
  case (Cons c cs)
  from assms have "nodes st1 cur = nodes st cur \<or> (node_at (nodes st) cur = None \<and> nodes st1 cur = Some Dir)"
    by (simp add: extends_def)
  with Cons.prems have h: "(case node_at (nodes st1) cur of Some (File _) \<Rightarrow> False | _ \<Rightarrow> True)"
    by (auto simp: node_at_def split: option.splits node.splits if_splits)
  from Cons.prems have "(if c = [] \<or> c = ''.'' then no_file (nodes st) cur cs
       else if c = ''..'' then no_file (nodes st) (butlast cur) cs
       else no_file (nodes st) (cur @ [c]) cs)" by simp
  then have "(if c = [] \<or> c = ''.'' then no_file (nodes st1) cur cs
       else if c = ''..'' then no_file (nodes st1) (butlast cur) cs
       else no_file (nodes st1) (cur @ [c]) cs)"
    by (auto intro: Cons.IH split: if_splits)
  with h show ?case by simp
qed

lemma no_file_append: "no_file ns cur (xs @ ys) \<Longrightarrow> no_file ns cur xs"
proof (induction xs arbitrary: cur)
  case Nil
  then show ?case by (cases ys) (auto split: option.splits node.splits)
next
  case (Cons c cs)
  then show ?case by (auto split: if_splits)
qed

lemma no_file_walk:
  "no_file ns cur (xs @ ys) \<Longrightarrow> walk ns cur xs = Inr k \<Longrightarrow> no_file ns k ys"
proof (induction xs arbitrary: cur)
  case Nil
  then show ?case by simp
next
  case (Cons c cs)
  from Cons.prems(2) have d: "node_at ns cur = Some Dir" by (rule walk_Cons_dir)
  consider "c = [] \<or> c = ''.''" | "\<not> (c = [] \<or> c = ''.'')" "c = ''..''"
    | "\<not> (c = [] \<or> c = ''.'')" "c \<noteq> ''..''" by blast
  then show ?case
  proof cases
    case 1
    with Cons.prems d have "no_file ns cur (cs @ ys)" "walk ns cur cs = Inr k" by simp_all
    then show ?thesis by (rule Cons.IH)
  next
    case 2
    with Cons.prems d have "no_file ns (butlast cur) (cs @ ys)" "walk ns (butlast cur) cs = Inr k"
      by simp_all
    then show ?thesis by (rule Cons.IH)
  next
    case 3
    with Cons.prems d have "no_file ns (cur @ [c]) (cs @ ys)" "walk ns (cur @ [c]) cs = Inr k"
      by (auto split: option.splits)
    then show ?thesis by (rule Cons.IH)
  qed
qed

lemma no_file_dir: "no_file ns k cs \<Longrightarrow> node_at ns k \<noteq> None \<Longrightarrow> node_at ns k = Some Dir"
  by (cases cs) (auto split: option.splits node.splits)

lemma no_file_filter: "no_file ns cur (filter (\<lambda>c. c \<noteq> []) cs) = no_file ns cur cs"
proof (induction cs arbitrary: cur)
  case Nil
  then show ?case by simp
next
  case (Cons c cs)
  show ?case
  proof (cases "c = []")
    case True
    have "no_file ns cur cs \<Longrightarrow> (case node_at ns cur of Some (File _) \<Rightarrow> False | _ \<Rightarrow> True)"
      by (cases cs) simp_all
    with True Cons show ?thesis by auto
  next
    case False
    with Cons show ?thesis by simp
  qed
qed

lemma walk_filter: "walk ns cur cs = Inr k \<Longrightarrow> walk ns cur (filter (\<lambda>c. c \<noteq> []) cs) = Inr k"
proof (induction cs arbitrary: cur)
  case Nil
  then show ?case by simp
next
  case (Cons c cs)
  from Cons.prems have d: "node_at ns cur = Some Dir" by (rule walk_Cons_dir)
  show ?case
  proof (cases "c = []")
    case True
    with Cons.prems d have "walk ns cur cs = Inr k" by simp
    from Cons.IH [OF this] True show ?thesis by simp
  next
    case False
    consider "c = ''.''" | "c \<noteq> ''.''" "c = ''..''" | "c \<noteq> ''.''" "c \<noteq> ''..''" by blast
    then show ?thesis
    proof cases
      case 1
      with Cons.prems d have "walk ns cur cs = Inr k" by simp
      from Cons.IH [OF this] 1 d show ?thesis by simp
    next
      case 2
      with Cons.prems d have "walk ns (butlast cur) cs = Inr k" by simp
      from Cons.IH [OF this] 2 d show ?thesis by simp
    next
      case 3
      with Cons.prems d False obtain x where x: "node_at ns (cur @ [c]) = Some x"
        and w: "walk ns (cur @ [c]) cs = Inr k"
        by (auto split: option.splits)
      from Cons.IH [OF w] 3 d False x show ?thesis by simp
    qed
  qed
qed

lemma exists_isdir:
  assumes "exists st p" and "no_file (nodes st) (start st p) (names p)"
  shows "isdir st p"
proof -
  from assms(1) obtain k where p: "p \<noteq> []"
    and w: "walk (nodes st) (start st p) (split_sep p) = Inr k"
    and n: "node_at (nodes st) k \<noteq> None"
    by (auto simp: exists_def resolve_def split: if_splits sum.splits option.splits)
  from assms(2) have "no_file (nodes st) (start st p) (split_sep p @ [])"
    by (simp add: names_def no_file_filter)
  from no_file_walk [OF this w] have "no_file (nodes st) k []" .
  from no_file_dir [OF this n] w p show ?thesis
    by (simp add: isdir_split dir_at_def)
qed

lemma split2_rstrip:
  assumes "rstrip_sep name \<noteq> []"
  shows "split2 name = psplit (rstrip_sep name)"
proof (cases "last name = sep")
  case True
  from assms have ne: "name \<noteq> []" by auto
  with True obtain r where r: "rev name = sep # r" by (cases name rule: rev_cases) auto
  then have "psplit name = (rstrip_sep name, [])"
    using assms ne by (simp add: psplit_def Let_def)
  then show ?thesis by (simp add: split2_def)
next
  case False
  from assms have ne: "name \<noteq> []" by auto
  with False obtain x r where r: "rev name = x # r" "x \<noteq> sep"
    by (cases name rule: rev_cases) auto
  then have "rstrip_sep name = rev (rev name)" by (simp add: rstrip_sep_def)
  then have q: "rstrip_sep name = name" by simp
  from ne False have "snd (psplit name) \<noteq> []" by (rule snd_psplit_ne)
  with q show ?thesis by (simp add: split2_def)
qed

lemma split2_tail_ne: "rstrip_sep name \<noteq> [] \<Longrightarrow> snd (split2 name) \<noteq> []"
  by (simp add: split2_rstrip snd_psplit_ne rstrip_last)

lemma names_split2:
  "names name = names (fst (split2 name))
     @ (if snd (split2 name) = [] then [] else [snd (split2 name)])"
proof (cases "snd (psplit name) = []")
  case True
  then have s: "split2 name = psplit (fst (psplit name))" by (simp add: split2_def)
  from True have "names name = names (fst (psplit name))"
    by (subst names_psplit) simp
  also have "\<dots> = names (fst (split2 name))
     @ (if snd (split2 name) = [] then [] else [snd (split2 name)])"
    unfolding s by (rule names_psplit)
  finally show ?thesis .
next
  case False
  then have s: "split2 name = psplit name" by (simp add: split2_def)
  show ?thesis unfolding s by (rule names_psplit)
qed

lemma head_prefix: "prefix (fst (split2 name)) name"
proof (cases "snd (psplit name) = []")
  case True
  then have "split2 name = psplit (fst (psplit name))" by (simp add: split2_def)
  then have "prefix (fst (split2 name)) (fst (psplit name))" by (simp add: fst_psplit_prefix)
  also have "prefix (fst (psplit name)) name" by (rule fst_psplit_prefix)
  finally show ?thesis .
next
  case False
  then show ?thesis by (simp add: split2_def fst_psplit_prefix)
qed

lemma start_head: "fst (split2 name) \<noteq> [] \<Longrightarrow> start st (fst (split2 name)) = start st name"
  by (intro start_prefix head_prefix)

lemma isdir_dot:
  assumes "isdir st (fst (split2 name))" and "snd (split2 name) = ''.''"
  shows "isdir st name"
proof -
  let ?h = "fst (split2 name)"
  from assms(1) have h: "?h \<noteq> []" and d: "dir_at (nodes st) (start st ?h) (names ?h)"
    by (simp_all add: isdir_names)
  from h have s: "start st ?h = start st name" by (rule start_head)
  from h head_prefix [of name] have ne: "name \<noteq> []" by auto
  from assms(2) have n: "names name = names ?h @ [''.'']" by (subst names_split2) simp
  from d obtain k where k: "walk (nodes st) (start st name) (names ?h) = Inr k"
    "node_at (nodes st) k = Some Dir"
    by (auto simp: dir_at_def s split: sum.splits)
  then have "dir_at (nodes st) k [''.'']" by (simp add: dir_at_Cons dir_at_Nil)
  with k(1) have "dir_at (nodes st) (start st name) (names name)"
    unfolding n dir_at_append by blast
  with ne show ?thesis by (simp add: isdir_names)
qed

lemma mkdir_ok_success:
  assumes ne: "name \<noteq> []"
    and par: "dir_at (nodes st) (start st name) (names (fst (split2 name)))"
    and t: "snd (split2 name) \<noteq> ''..''"
    and nf: "no_file (nodes st) (start st name) (names name)"
  shows "\<exists>st'. mkdir_ok name st = (None, st') \<and> isdir st' name"
proof (cases "rstrip_sep name = []")
  case True
  with ne have m: "mkdir name st = Inl FileExistsError" by (simp add: mkdir_def)
  from True have "names name = []" by (metis names_rstrip names_Nil)
  moreover from par have "node_at (nodes st) (start st name) = Some Dir" by (rule dir_at_start)
  ultimately have "isdir st name" using ne by (simp add: isdir_names dir_at_Nil)
  with m show ?thesis by (simp add: mkdir_ok_def)
next
  case False
  let ?q = "rstrip_sep name"
  let ?h = "fst (split2 name)"
  let ?t = "snd (split2 name)"
  let ?ns = "nodes st"
  from False have sp: "split2 name = psplit ?q" by (rule split2_rstrip)
  from False have tne: "?t \<noteq> []" by (rule split2_tail_ne)
  have tl: "last (split_sep ?q) = ?t" by (simp add: last_split_sep sp)
  have sq: "start st ?q = start st name" using False by (intro start_prefix rstrip_prefix)
  have "filter (\<lambda>c. c \<noteq> []) (butlast (split_sep ?q)) = names ?h"
    by (simp add: butlast_split_sep sp)
  with par have "dir_at ?ns (start st name) (butlast (split_sep ?q))"
    by (metis dir_at_filter)
  then obtain k where w: "walk ?ns (start st name) (butlast (split_sep ?q)) = Inr k"
    and dk: "node_at ?ns k = Some Dir"
    by (auto simp: dir_at_def split: sum.splits)
  from walk_filter [OF w] have wn: "walk ?ns (start st name) (names ?h) = Inr k"
    by (simp add: butlast_split_sep sp)
  from tne have n: "names name = names ?h @ [?t]" by (subst names_split2) simp
  show ?thesis
  proof (cases "mkdir name st")
    case (Inr st')
    then have "isdir st' name" by (rule mkdir_isdir)
    with Inr show ?thesis by (simp add: mkdir_ok_def)
  next
    case (Inl e)
    have "isdir st name"
    proof (cases "?t = ''.''")
      case True
      from dk have "dir_at ?ns k [''.'']" by (simp add: dir_at_Cons dir_at_Nil)
      with wn have "dir_at ?ns (start st name) (names name)"
        unfolding n True dir_at_append by blast
      with ne show ?thesis by (simp add: isdir_names)
    next
      case dot: False
      have some: "node_at ?ns (k @ [?t]) \<noteq> None"
      proof
        assume "node_at ?ns (k @ [?t]) = None"
        with w dk dot t tne False ne sq tl have "\<exists>s. mkdir name st = Inr s"
          by (simp add: mkdir_def Let_def)
        with Inl show False by simp
      qed
      from nf have "no_file ?ns (start st name) (names ?h @ [?t])" by (simp only: n)
      from no_file_walk [OF this wn] have "no_file ?ns k [?t]" .
      with dot t tne have "no_file ?ns (k @ [?t]) []" by simp
      from no_file_dir [OF this some] have dn: "node_at ?ns (k @ [?t]) = Some Dir" .
      with dk dot t tne have "dir_at ?ns k [?t]" by (simp add: dir_at_Cons dir_at_Nil)
      with wn have "dir_at ?ns (start st name) (names name)"
        unfolding n dir_at_append by blast
      with ne show ?thesis by (simp add: isdir_names)
    qed
    with Inl show ?thesis by (simp add: mkdir_ok_def)
  qed
qed

lemma makedirs_creates:
  "name \<noteq> [] \<Longrightarrow> ''..'' \<notin> set (names name) \<Longrightarrow>
   node_at (nodes st) (start st name) = Some Dir \<Longrightarrow>
   no_file (nodes st) (start st name) (names name) \<Longrightarrow>
   \<exists>st'. makedirs name st = (None, st') \<and> isdir st' name"
proof (induction name st rule: makedirs.induct)
  case (1 name st)
  let ?h = "fst (split2 name)"
  let ?t = "snd (split2 name)"
  note n = names_split2 [of name]
  from "1.prems"(2) n have t: "?t \<noteq> ''..''" by (auto split: if_splits)
  from "1.prems"(4) n have nfh: "no_file (nodes st) (start st name) (names ?h)"
    by (metis no_file_append)
  show ?case
  proof (cases "?h \<noteq> [] \<and> ?t \<noteq> [] \<and> \<not> exists st ?h")
    case True
    then have h: "?h \<noteq> []" and tne: "?t \<noteq> []" by simp_all
    from h have s: "start st ?h = start st name" by (rule start_head)
    from "1.prems"(2) n have p2: "''..'' \<notin> set (names ?h)" by (auto split: if_splits)
    from "1.prems"(3) s have p3: "node_at (nodes st) (start st ?h) = Some Dir" by simp
    from nfh s have p4: "no_file (nodes st) (start st ?h) (names ?h)" by simp
    from "1.IH" [OF True h p2 p3 p4] obtain st1 where
      m: "makedirs ?h st = (None, st1)" and d: "isdir st1 ?h" by blast
    from makedirs_extends [OF m] have e: "extends st st1" .
    then have c: "cwd st1 = cwd st" by (simp add: extends_def)
    then have s1: "start st1 x = start st x" for x by (simp add: start_def)
    show ?thesis
    proof (cases "?t = ''.''")
      case dot: True
      from isdir_dot [OF d dot] have "isdir st1 name" .
      moreover from True m dot have "makedirs name st = (None, st1)"
        by (subst makedirs.simps) simp
      ultimately show ?thesis by blast
    next
      case dot: False
      from d have "dir_at (nodes st1) (start st1 name) (names ?h)"
        by (simp add: isdir_names s1 s)
      moreover from no_file_extends [OF e "1.prems"(4)]
      have "no_file (nodes st1) (start st1 name) (names name)" by (simp add: s1)
      ultimately obtain st' where "mkdir_ok name st1 = (None, st')" "isdir st' name"
        using mkdir_ok_success [OF "1.prems"(1) _ t, of st1] by blast
      moreover from True m dot have "makedirs name st = mkdir_ok name st1"
        by (subst makedirs.simps) simp
      ultimately show ?thesis by simp
    qed
  next
    case False
    then have mk: "makedirs name st = mkdir_ok name st"
      by (subst makedirs.simps) auto
    have par: "dir_at (nodes st) (start st name) (names ?h)"
    proof (cases "?h = []")
      case True
      with "1.prems"(3) show ?thesis by (simp add: dir_at_Nil)
    next
      case h: False
      show ?thesis
      proof (cases "?t = []")
        case True
        then have "rstrip_sep name = []" using split2_tail_ne by blast
        then have "names name = []" by (metis names_rstrip names_Nil)
        with n have "names ?h = []" by simp
        with "1.prems"(3) show ?thesis by (simp add: dir_at_Nil)
      next
        case tne: False
        with False h have ex: "exists st ?h" by simp
        from h have s: "start st ?h = start st name" by (rule start_head)
        from nfh s have "no_file (nodes st) (start st ?h) (names ?h)" by simp
        from exists_isdir [OF ex this] show ?thesis by (simp add: isdir_names s)
      qed
    qed
    from mkdir_ok_success [OF "1.prems"(1) par t "1.prems"(4)] mk show ?thesis by simp
  qed
qed

lemma prefix_hd: "prefix a b \<Longrightarrow> a \<noteq> [] \<Longrightarrow> hd a = hd b"
  by (cases a) (auto simp: prefix_def)

subsection \<open>Writing a file\<close>

lemma open_w_Inr:
  assumes "open_w p d st = Inr st'"
  obtains k where "walk (nodes st) (start st p) (butlast (split_sep p)) = Inr k"
    and "node_at (nodes st) k = Some Dir"
    and "last (split_sep p) \<noteq> []" and "last (split_sep p) \<noteq> ''.''"
    and "last (split_sep p) \<noteq> ''..''"
    and "node_at (nodes st) (k @ [last (split_sep p)]) \<noteq> Some Dir"
    and "st' = st\<lparr>nodes := (nodes st)(k @ [last (split_sep p)] \<mapsto> File d)\<rparr>"
    and "p \<noteq> []"
  using assms
  by (auto simp: open_w_def Let_def split: if_splits sum.splits option.splits node.splits)

lemma open_w_Inr_iff:
  assumes "walk (nodes st) (start st p) (butlast (split_sep p)) = Inr k"
    and "node_at (nodes st) k = Some Dir"
    and "last (split_sep p) \<noteq> []" and "last (split_sep p) \<noteq> ''.''"
    and "last (split_sep p) \<noteq> ''..''"
    and "node_at (nodes st) (k @ [last (split_sep p)]) \<noteq> Some Dir"
    and "p \<noteq> []"
  shows "open_w p d st = Inr (st\<lparr>nodes := (nodes st)(k @ [last (split_sep p)] \<mapsto> File d)\<rparr>)"
  using assms
  by (auto simp: open_w_def Let_def split: if_splits sum.splits option.splits node.splits)

lemma grows_write:
  assumes "node_at ns k \<noteq> Some Dir" and "k \<noteq> []"
  shows "grows ns (ns(k \<mapsto> File d))"
  using assms by (auto simp: grows_def node_at_def)

lemma grows_over_write:
  assumes "grows a b" and "b k = Some (File x)" and "k \<noteq> []"
  shows "grows a (b(k \<mapsto> File y))"
proof -
  from assms(2,3) have "node_at b k \<noteq> Some Dir" by (simp add: node_at_def)
  then have "grows b (b(k \<mapsto> File y))" using assms(3) by (rule grows_write)
  with assms(1) show ?thesis by (rule grows_trans)
qed

text \<open>After a write the path leads to the file, which holds the data.\<close>

lemma open_w_resolve:
  assumes "open_w p d st = Inr st'"
  shows "\<exists>k. resolve st' p = Inr k \<and> nodes st' k = Some (File d) \<and> k \<noteq> []"
proof -
  from assms obtain k where k: "walk (nodes st) (start st p) (butlast (split_sep p)) = Inr k"
    "node_at (nodes st) k = Some Dir"
    "last (split_sep p) \<noteq> []" "last (split_sep p) \<noteq> ''.''" "last (split_sep p) \<noteq> ''..''"
    "node_at (nodes st) (k @ [last (split_sep p)]) \<noteq> Some Dir"
    "st' = st\<lparr>nodes := (nodes st)(k @ [last (split_sep p)] \<mapsto> File d)\<rparr>" "p \<noteq> []"
    by (rule open_w_Inr)
  let ?n = "last (split_sep p)"
  let ?ns' = "(nodes st)(k @ [?n] \<mapsto> File d)"
  have g: "grows (nodes st) ?ns'" using k(6) by (intro grows_write) simp_all
  from walk_mono [OF g k(1)] have w: "walk ?ns' (start st p) (butlast (split_sep p)) = Inr k" .
  from grows_Dir [OF g k(2)] have dk: "node_at ?ns' k = Some Dir" .
  have nk: "node_at ?ns' (k @ [?n]) = Some (File d)" by (simp add: node_at_def)
  have one: "walk ?ns' k [?n] = Inr (k @ [?n])"
    using dk nk k(3,4,5) by simp
  have "walk ?ns' (start st p) (butlast (split_sep p) @ [?n]) = walk ?ns' k [?n]"
    by (subst walk_append) (simp only: w sum.case)
  with one have wp: "walk ?ns' (start st p) (split_sep p) = Inr (k @ [?n])" by simp
  have n': "nodes st' = ?ns'" and s': "start st' p = start st p"
    using k(7) by (simp_all add: start_def)
  have "resolve st' p = Inr (k @ [?n])"
    by (simp add: resolve_def n' s' wp nk k(8))
  moreover have "nodes st' (k @ [?n]) = Some (File d)" by (simp add: n')
  ultimately show ?thesis by blast
qed

lemma open_w_read:
  assumes "open_w p d st = Inr st'"
  shows "read_text st' p = Inr (universal_newlines d)"
proof -
  from open_w_resolve [OF assms] obtain k where
    "resolve st' p = Inr k" "nodes st' k = Some (File d)" "k \<noteq> []" by blast
  then show ?thesis by (simp add: read_text_def node_at_def)
qed

subsection \<open>One turn of the loop\<close>

lemma join_base_abs: "join base b \<noteq> [] \<and> hd (join base b) = sep"
  by (simp add: join_def base_def)

lemma dirname_abs_ne: "p \<noteq> [] \<Longrightarrow> hd p = sep \<Longrightarrow> dirname p \<noteq> []"
proof -
  assume "p \<noteq> []" "hd p = sep"
  then have "sep \<in> set p" by (metis hd_in_set)
  then show ?thesis by (simp add: dirname_def fst_psplit_Nil)
qed

lemma write_one_None:
  assumes "write_one m st = (None, st')"
  obtains st1 st2 where "makedirs (dirname (join base (strip (fst m)))) st = (None, st1)"
    and "open_w (join base (strip (fst m))) (snd m) st1 = Inr st2"
    and "st' = print (''Written: '' @ strip (fst m)) st2"
  using assms
  by (auto simp: write_one_def Let_def split: prod.splits option.splits sum.splits)

lemma write_one_grows:
  assumes "write_one m st = (r, st')"
  shows "grows (nodes st) (nodes st') \<and> cwd st' = cwd st"
proof -
  let ?full = "join base (strip (fst m))"
  obtain r1 st1 where m1: "makedirs (dirname ?full) st = (r1, st1)"
    by (cases "makedirs (dirname ?full) st")
  from makedirs_extends [OF m1] have e: "extends st st1" .
  then have g1: "grows (nodes st) (nodes st1)" and c1: "cwd st1 = cwd st"
    by (simp_all add: extends_grows) (simp add: extends_def)
  show ?thesis
  proof (cases r1)
    case (Some e)
    with assms m1 have "st' = st1" by (simp add: write_one_def Let_def)
    with g1 c1 show ?thesis by simp
  next
    case None
    show ?thesis
    proof (cases "open_w ?full (snd m) st1")
      case (Inl e)
      with assms m1 None have "st' = st1" by (simp add: write_one_def Let_def)
      with g1 c1 show ?thesis by simp
    next
      case (Inr st2)
      with assms m1 None have st': "st' = print (''Written: '' @ strip (fst m)) st2"
        by (simp add: write_one_def Let_def)
      from Inr obtain k where "node_at (nodes st1) (k @ [last (split_sep ?full)]) \<noteq> Some Dir"
        "st2 = st1\<lparr>nodes := (nodes st1)(k @ [last (split_sep ?full)] \<mapsto> File (snd m))\<rparr>"
        by (rule open_w_Inr)
      then have "grows (nodes st1) (nodes st2)" "cwd st2 = cwd st1"
        by (simp_all add: grows_write)
      with g1 c1 st' show ?thesis
        by (auto simp: print_def intro: grows_trans)
    qed
  qed
qed

lemma write_one_replay:
  assumes "write_one m st = (None, st')"
    and "grows (nodes st') (nodes t)" and "cwd t = cwd st"
  shows "\<exists>k. k \<noteq> [] \<and> nodes st' k = Some (File (snd m)) \<and> (\<exists>d. nodes t k = Some (File d)) \<and>
           write_one m t = (None, t\<lparr>nodes := (nodes t)(k \<mapsto> File (snd m)),
                                    stdout := stdout t @ [''Written: '' @ strip (fst m)]\<rparr>) \<and>
           (\<forall>k'. k' \<noteq> k \<longrightarrow> nodes st' k' = nodes st k' \<or>
                  (node_at (nodes st) k' = None \<and> nodes st' k' = Some Dir))"
proof -
  let ?full = "join base (strip (fst m))"
  let ?n = "last (split_sep ?full)"
  from assms(1) obtain st1 st2 where m1: "makedirs (dirname ?full) st = (None, st1)"
    and o: "open_w ?full (snd m) st1 = Inr st2"
    and st': "st' = print (''Written: '' @ strip (fst m)) st2"
    by (rule write_one_None)
  from makedirs_extends [OF m1] have e: "extends st st1" .
  then have c1: "cwd st1 = cwd st" by (simp add: extends_def)
  from o obtain kp where kp: "walk (nodes st1) (start st1 ?full) (butlast (split_sep ?full)) = Inr kp"
    "node_at (nodes st1) kp = Some Dir"
    "?n \<noteq> []" "?n \<noteq> ''.''" "?n \<noteq> ''..''"
    "node_at (nodes st1) (kp @ [?n]) \<noteq> Some Dir"
    "st2 = st1\<lparr>nodes := (nodes st1)(kp @ [?n] \<mapsto> File (snd m))\<rparr>" "?full \<noteq> []"
    by (rule open_w_Inr)
  let ?k = "kp @ [?n]"
  from st' kp(7) have ns': "nodes st' = (nodes st1)(?k \<mapsto> File (snd m))"
    by (simp add: print_def)
  have g1: "grows (nodes st1) (nodes st')"
    unfolding ns' using kp(6) by (intro grows_write) simp_all
  from g1 assms(2) have g1t: "grows (nodes st1) (nodes t)" by (rule grows_trans)
  have st: "start t ?full = start st1 ?full" using assms(3) c1 by (simp add: start_def)
  have "dir_at (nodes st1) (start st1 ?full) (butlast (split_sep ?full))"
    using kp(1,2) by (simp add: dir_at_def)
  with dirname_abs_ne join_base_abs have "isdir st1 (dirname ?full)"
    by (intro parent_isdir) simp_all
  with g1t have "isdir t (dirname ?full)"
    using assms(3) c1 by (intro isdir_mono [of st1 t]) simp_all
  then have mt: "makedirs (dirname ?full) t = (None, t)" by (rule makedirs_existing)
  have "node_at (nodes st') ?k = Some (File (snd m))" by (simp add: ns' node_at_def)
  with assms(2) obtain d where "node_at (nodes t) ?k = Some (File d)"
    unfolding grows_def by blast
  then have tk: "nodes t ?k = Some (File d)" by (simp add: node_at_def)
  have "open_w ?full (snd m) t = Inr (t\<lparr>nodes := (nodes t)(?k \<mapsto> File (snd m))\<rparr>)"
  proof (rule open_w_Inr_iff)
    show "walk (nodes t) (start t ?full) (butlast (split_sep ?full)) = Inr kp"
      unfolding st by (rule walk_mono [OF g1t kp(1)])
    show "node_at (nodes t) kp = Some Dir" by (rule grows_Dir [OF g1t kp(2)])
    show "node_at (nodes t) ?k \<noteq> Some Dir" using tk by (simp add: node_at_def)
  qed (use kp in simp_all)
  with mt have "write_one m t = (None, t\<lparr>nodes := (nodes t)(?k \<mapsto> File (snd m)),
                                    stdout := stdout t @ [''Written: '' @ strip (fst m)]\<rparr>)"
    by (simp add: write_one_def Let_def print_def)
  moreover have "nodes st' k' = nodes st k' \<or>
      (node_at (nodes st) k' = None \<and> nodes st' k' = Some Dir)" if "k' \<noteq> ?k" for k'
    using e that by (auto simp: ns' extends_def)
  moreover have "nodes st' ?k = Some (File (snd m))" by (simp add: ns')
  ultimately show ?thesis using tk by (intro exI [of _ ?k]) simp
qed

subsection \<open>The whole loop\<close>

lemma write_matches_grows:
  "write_matches ms st = (r, st') \<Longrightarrow> grows (nodes st) (nodes st') \<and> cwd st' = cwd st"
proof (induction ms arbitrary: st)
  case Nil
  then show ?case by (simp add: grows_refl)
next
  case (Cons m ms)
  obtain r1 st1 where w: "write_one m st = (r1, st1)" by (cases "write_one m st")
  from write_one_grows [OF w] have g: "grows (nodes st) (nodes st1)" "cwd st1 = cwd st"
    by simp_all
  show ?case
  proof (cases r1)
    case (Some e)
    with Cons.prems w g show ?thesis by simp
  next
    case None
    with Cons.prems w have "write_matches ms st1 = (r, st')" by simp
    from Cons.IH [OF this] g show ?thesis by (auto intro: grows_trans)
  qed
qed

lemma write_matches_replay:
  assumes "write_matches ms st = (None, st')"
    and "grows (nodes st') (nodes t)" and "cwd t = cwd st"
  shows "\<exists>t'. write_matches ms t = (None, t') \<and> cwd t' = cwd t \<and>
           stdout t' = stdout t @ map (\<lambda>m. ''Written: '' @ strip (fst m)) ms \<and>
           (\<forall>k. nodes t' k = nodes st' k \<or> (nodes t' k = nodes t k \<and> nodes st' k = nodes st k))"
  using assms
proof (induction ms arbitrary: st t)
  case Nil
  then show ?case by simp
next
  case (Cons m ms)
  obtain r1 s2 where w: "write_one m st = (r1, s2)" by (cases "write_one m st")
  with Cons.prems(1) have r1: "r1 = None" and rest: "write_matches ms s2 = (None, st')"
    by (auto split: option.splits)
  from write_matches_grows [OF rest] have g2: "grows (nodes s2) (nodes st')" and c2: "cwd st' = cwd s2"
    by simp_all
  from write_one_grows [OF w] have cs2: "cwd s2 = cwd st" by simp
  from g2 Cons.prems(2) have g2t: "grows (nodes s2) (nodes t)" by (rule grows_trans)
  from write_one_replay [OF w [unfolded r1] g2t Cons.prems(3)] obtain k d where
    k: "k \<noteq> []" "nodes s2 k = Some (File (snd m))" "nodes t k = Some (File d)"
    "write_one m t = (None, t\<lparr>nodes := (nodes t)(k \<mapsto> File (snd m)),
                                    stdout := stdout t @ [''Written: '' @ strip (fst m)]\<rparr>)"
    "\<forall>k'. k' \<noteq> k \<longrightarrow> nodes s2 k' = nodes st k' \<or>
                  (node_at (nodes st) k' = None \<and> nodes s2 k' = Some Dir)"
    by blast
  let ?t2 = "t\<lparr>nodes := (nodes t)(k \<mapsto> File (snd m)),
               stdout := stdout t @ [''Written: '' @ strip (fst m)]\<rparr>"
  have gt2: "grows (nodes st') (nodes ?t2)"
    using grows_over_write [OF Cons.prems(2) k(3) k(1)] by simp
  have ct2: "cwd ?t2 = cwd s2" using Cons.prems(3) cs2 by simp
  from Cons.IH [OF rest gt2 ct2] obtain t' where
    t': "write_matches ms ?t2 = (None, t')" "cwd t' = cwd ?t2"
    "stdout t' = stdout ?t2 @ map (\<lambda>m. ''Written: '' @ strip (fst m)) ms"
    "\<forall>k. nodes t' k = nodes st' k \<or> (nodes t' k = nodes ?t2 k \<and> nodes st' k = nodes s2 k)"
    by blast
  have "nodes t' j = nodes st' j \<or> (nodes t' j = nodes t j \<and> nodes st' j = nodes st j)" for j
  proof (cases "nodes t' j = nodes st' j")
    case True
    then show ?thesis by simp
  next
    case False
    with t'(4) have a: "nodes t' j = nodes ?t2 j" "nodes st' j = nodes s2 j" by auto
    show ?thesis
    proof (cases "j = k")
      case True
      with a k(2) have "nodes t' j = nodes st' j" by simp
      with False show ?thesis by simp
    next
      case jk: False
      with a have tj: "nodes t' j = nodes t j" by simp
      from k(5) jk have "nodes s2 j = nodes st j \<or>
          (node_at (nodes st) j = None \<and> nodes s2 j = Some Dir)" by blast
      then show ?thesis
      proof
        assume "nodes s2 j = nodes st j"
        with a tj show ?thesis by simp
      next
        assume c: "node_at (nodes st) j = None \<and> nodes s2 j = Some Dir"
        then have j: "j \<noteq> []" by (auto simp: node_at_def)
        with c a have "node_at (nodes st') j = Some Dir" by (simp add: node_at_def)
        from grows_Dir [OF Cons.prems(2) this] j have "nodes t j = Some Dir"
          by (simp add: node_at_def)
        with tj a c have "nodes t' j = nodes st' j" by simp
        with False show ?thesis by simp
      qed
    qed
  qed
  with t' k(4) show ?case by (intro exI [of _ t']) simp
qed

lemma write_matches_twice:
  assumes "write_matches ms st = (None, st1)"
  shows "\<exists>st2. write_matches ms st1 = (None, st2) \<and> nodes st2 = nodes st1 \<and> cwd st2 = cwd st1"
proof -
  from write_matches_grows [OF assms] have c: "cwd st1 = cwd st" by simp
  from write_matches_replay [OF assms grows_refl c] obtain t' where
    "write_matches ms st1 = (None, t')" "cwd t' = cwd st1"
    "\<forall>k. nodes t' k = nodes st1 k \<or> (nodes t' k = nodes st1 k \<and> nodes st1 k = nodes st k)"
    by blast
  moreover from this(3) have "nodes t' = nodes st1" by (intro ext) blast
  ultimately show ?thesis by blast
qed

subsection \<open>Every written name ends in the extension\<close>

definition changes :: "sys \<Rightarrow> sys \<Rightarrow> bool" where
  "changes st st' =
     (\<forall>k. nodes st' k = nodes st k
        \<or> (node_at (nodes st) k = None \<and> nodes st' k = Some Dir)
        \<or> (k \<noteq> [] \<and> suffix ext (last k) \<and> (\<exists>d. nodes st' k = Some (File d))))"

lemma strip_suffix_ext:
  assumes "suffix ext p"
  shows "suffix ext (strip p)"
proof -
  from assms obtain z where p: "p = z @ ext" by (auto simp: suffix_def)
  have e: "dropWhile is_space ext = ext" by (simp add: ext_def is_space_def)
  have "\<exists>u. dropWhile is_space p = u @ ext"
  proof (cases "\<forall>x\<in>set z. is_space x")
    case True
    then have "dropWhile is_space (z @ ext) = dropWhile is_space ext"
      by (intro dropWhile_append2) simp
    with e p show ?thesis by (intro exI [of _ "[]"]) simp
  next
    case False
    then obtain x where "x \<in> set z" "\<not> is_space x" by blast
    then have "dropWhile is_space (z @ ext) = dropWhile is_space z @ ext"
      by (rule dropWhile_append1)
    with p show ?thesis by blast
  qed
  then obtain u where u: "dropWhile is_space p = u @ ext" ..
  have "dropWhile is_space (rev (u @ ext)) = rev (u @ ext)"
    by (simp add: ext_def is_space_def)
  with u have "strip p = u @ ext" by (simp add: strip_def)
  then show ?thesis by (simp add: suffix_def)
qed

text \<open>Stripping removes the white space around a text that neither starts nor ends with it.\<close>

lemma is_space_whitespace: "is_space c = (c \<in> set whitespace)"
proof -
  have w: "map char_of [9, 10, 11, 12, 13, 28, 29, 30, 31, 32, 133, 160::nat] = whitespace"
    by code_simp
  have o: "map of_char whitespace = [9, 10, 11, 12, 13, 28, 29, 30, 31, 32, 133, 160::nat]"
    by code_simp
  show ?thesis
  proof
    assume "c \<in> set whitespace"
    then have "of_char c \<in> set (map of_char whitespace :: nat list)" by simp
    then show "is_space c" by (simp only: o is_space_def)
  next
    assume "is_space c"
    then have "char_of (of_char c :: nat) \<in> set (map char_of [9, 10, 11, 12, 13, 28, 29, 30, 31, 32, 133, 160::nat])"
      unfolding is_space_def set_map by (rule imageI)
    then show "c \<in> set whitespace" by (simp only: w char_of_char)
  qed
qed

lemma strip_surround:
  assumes "set l \<subseteq> set whitespace" and "set r \<subseteq> set whitespace"
    and "q \<noteq> []" and "hd q \<notin> set whitespace" and "last q \<notin> set whitespace"
  shows "strip (l @ q @ r) = q"
proof -
  from assms(1) have l: "\<forall>x\<in>set l. is_space x" by (auto simp: is_space_whitespace)
  from assms(2) have r: "\<forall>x\<in>set (rev r). is_space x" by (auto simp: is_space_whitespace)
  from assms(3,4) obtain x xs where q: "q = x # xs" and x: "\<not> is_space x"
    by (cases q) (auto simp: is_space_whitespace)
  from assms(3,5) obtain y ys where rq: "rev q = y # ys" and y: "\<not> is_space y"
    by (cases q rule: rev_cases) (auto simp: is_space_whitespace)
  from l have "dropWhile is_space (l @ q @ r) = dropWhile is_space (q @ r)"
    by (intro dropWhile_append2) simp
  also have "\<dots> = q @ r" using q x by simp
  finally have a: "dropWhile is_space (l @ q @ r) = q @ r" .
  from r have "dropWhile is_space (rev r @ rev q) = dropWhile is_space (rev q)"
    by (intro dropWhile_append2) simp
  also have "\<dots> = rev q" using rq y by simp
  finally have "dropWhile is_space (rev (q @ r)) = rev q" by simp
  with a show ?thesis by (simp add: strip_def)
qed

lemma join_suffix: "suffix e b \<Longrightarrow> suffix e (join a b)"
  by (auto simp: join_def suffix_def)

lemma snd_psplit_suffix:
  assumes "suffix ext p"
  shows "suffix ext (snd (psplit p))"
proof -
  from assms obtain z where p: "p = z @ ext" by (auto simp: suffix_def)
  have "takeWhile (\<lambda>c. c \<noteq> sep) (rev ext @ rev z) = rev ext @ takeWhile (\<lambda>c. c \<noteq> sep) (rev z)"
    by (intro takeWhile_append2) (auto simp: ext_def)
  with p have "snd (psplit p) = rev (takeWhile (\<lambda>c. c \<noteq> sep) (rev z)) @ ext"
    by (simp add: psplit_def Let_def)
  then show ?thesis by (simp add: suffix_def)
qed

lemma findall_suffix: "m \<in> set (findall s) \<Longrightarrow> suffix ext (fst m)"
  using findall_sound [of "fst m" "snd m" s] by (auto simp: suffix_def)

lemma changes_refl: "changes st st"
  by (simp add: changes_def)

lemma changes_trans:
  assumes "changes a b" and "changes b c"
  shows "changes a c"
  unfolding changes_def
proof
  fix k
  from assms(1) have ab: "nodes b k = nodes a k
        \<or> (node_at (nodes a) k = None \<and> nodes b k = Some Dir)
        \<or> (k \<noteq> [] \<and> suffix ext (last k) \<and> (\<exists>d. nodes b k = Some (File d)))"
    by (simp add: changes_def)
  from assms(2) have bc: "nodes c k = nodes b k
        \<or> (node_at (nodes b) k = None \<and> nodes c k = Some Dir)
        \<or> (k \<noteq> [] \<and> suffix ext (last k) \<and> (\<exists>d. nodes c k = Some (File d)))"
    by (simp add: changes_def)
  from ab bc show "nodes c k = nodes a k
        \<or> (node_at (nodes a) k = None \<and> nodes c k = Some Dir)
        \<or> (k \<noteq> [] \<and> suffix ext (last k) \<and> (\<exists>d. nodes c k = Some (File d)))"
    by (auto simp: node_at_def split: if_splits)
qed

lemma extends_changes:
  assumes "extends st st'"
  shows "changes st st'"
  unfolding changes_def
proof
  fix k
  from assms have "nodes st' k = nodes st k
      \<or> (node_at (nodes st) k = None \<and> nodes st' k = Some Dir)"
    by (simp add: extends_def)
  then show "nodes st' k = nodes st k
        \<or> (node_at (nodes st) k = None \<and> nodes st' k = Some Dir)
        \<or> (k \<noteq> [] \<and> suffix ext (last k) \<and> (\<exists>d. nodes st' k = Some (File d)))"
    by (elim disjE) simp_all
qed

lemma write_one_changes:
  assumes "suffix ext (fst m)" and "write_one m st = (r, st')"
  shows "changes st st'"
proof -
  let ?full = "join base (strip (fst m))"
  obtain r1 st1 where m1: "makedirs (dirname ?full) st = (r1, st1)"
    by (cases "makedirs (dirname ?full) st")
  from makedirs_extends [OF m1] have c1: "changes st st1" by (rule extends_changes)
  show ?thesis
  proof (cases r1)
    case (Some e)
    with assms(2) m1 have "st' = st1" by (simp add: write_one_def Let_def)
    with c1 show ?thesis by simp
  next
    case None
    show ?thesis
    proof (cases "open_w ?full (snd m) st1")
      case (Inl e)
      with assms(2) m1 None have "st' = st1" by (simp add: write_one_def Let_def)
      with c1 show ?thesis by simp
    next
      case (Inr st2)
      with assms(2) m1 None have st': "st' = print (''Written: '' @ strip (fst m)) st2"
        by (simp add: write_one_def Let_def)
      from Inr obtain k where
        "st2 = st1\<lparr>nodes := (nodes st1)(k @ [last (split_sep ?full)] \<mapsto> File (snd m))\<rparr>"
        by (rule open_w_Inr)
      moreover have "suffix ext (last (split_sep ?full))"
        unfolding last_split_sep
        by (intro snd_psplit_suffix join_suffix strip_suffix_ext assms(1))
      ultimately have "changes st1 st'"
        by (simp add: st' print_def changes_def)
      with c1 show ?thesis by (rule changes_trans)
    qed
  qed
qed

lemma write_matches_changes:
  "\<forall>m\<in>set ms. suffix ext (fst m) \<Longrightarrow> write_matches ms st = (r, st') \<Longrightarrow> changes st st'"
proof (induction ms arbitrary: st)
  case Nil
  then show ?case by (simp add: changes_refl)
next
  case (Cons m ms)
  obtain r1 st1 where w: "write_one m st = (r1, st1)" by (cases "write_one m st")
  from Cons.prems(1) have "suffix ext (fst m)" by simp
  from write_one_changes [OF this w] have c: "changes st st1" .
  show ?case
  proof (cases r1)
    case (Some e)
    with Cons.prems w c show ?thesis by simp
  next
    case None
    with Cons.prems w have "write_matches ms st1 = (r, st')" by simp
    with Cons.IH [of st1] Cons.prems(1) have "changes st1 st'" by simp
    with c show ?thesis by (rule changes_trans)
  qed
qed

text \<open>The input of the script is not among the files it writes.\<close>

lemma input_kept:
  assumes "read_text st ''remaining_files.txt'' = Inr content"
    and "write_matches (findall content) st = (r, st')"
  shows "read_text st' ''remaining_files.txt'' = Inr content"
proof -
  let ?f = "''remaining_files.txt''"
  let ?k = "cwd st @ [?f]"
  have sp: "split_sep ?f = [?f]" by (simp add: split_on_none)
  have s0: "start st ?f = cwd st" by (simp add: start_def)
  from assms(1) obtain k d where r: "resolve st ?f = Inr k"
    and n: "node_at (nodes st) k = Some (File d)" and u: "universal_newlines d = content"
    by (auto simp: read_text_def split: sum.splits option.splits node.splits)
  from r have w: "walk (nodes st) (cwd st) [?f] = Inr k"
    by (simp add: resolve_def sp s0 del: walk.simps split: sum.splits option.splits)
  then have k: "k = ?k"
    by (auto split: option.splits node.splits)
  from write_matches_grows [OF assms(2)] have g: "grows (nodes st) (nodes st')"
    and c: "cwd st' = cwd st" by simp_all
  have ch: "changes st st'"
    by (rule write_matches_changes [OF _ assms(2)]) (simp add: findall_suffix)
  have ns: "\<not> suffix ext (last ?k)" by (simp add: ext_def suffix_to_prefix)
  from n k have nn: "node_at (nodes st) ?k \<noteq> None" by simp
  from ch [unfolded changes_def, THEN spec, of ?k] ns nn
  have "nodes st' ?k = nodes st ?k" by simp
  with n k have n': "node_at (nodes st') ?k = Some (File d)" by (simp add: node_at_def)
  from walk_mono [OF g w] k c have "walk (nodes st') (start st' ?f) (split_sep ?f) = Inr ?k"
    by (simp add: sp start_def)
  with n' u show ?thesis by (simp add: read_text_def resolve_def)
qed

lemma resolve_print: "resolve (print x st) p = resolve st p"
  by (simp add: resolve_def start_def print_def cong: sum.case_cong option.case_cong)

lemma read_text_print: "read_text (print x st) p = read_text st p"
  by (simp add: read_text_def resolve_print)
     (simp add: print_def cong: sum.case_cong option.case_cong)

lemma nodes_print [simp]: "nodes (print x st) = nodes st"
  by (simp add: print_def)

lemma isdir_print: "isdir (print x st) p = isdir st p"
  by (simp only: isdir_def resolve_print nodes_print)

lemma universal_newlines_id: "CR \<notin> set s \<Longrightarrow> universal_newlines s = s"
  by (induction s rule: universal_newlines.induct) auto

lemma write_one_pair:
  assumes "write_one (p, c) st = (None, st')"
  obtains st1 st2 where "makedirs (dirname (join base (strip p))) st = (None, st1)"
    and "open_w (join base (strip p)) c st1 = Inr st2"
    and "st' = print (''Written: '' @ strip p) st2"
  using assms
  by (auto simp: write_one_def Let_def split: prod.splits option.splits sum.splits)

lemma write_one_file:
  assumes "write_one (p, c) st = (None, st')"
  shows "\<exists>k. resolve st' (join base (strip p)) = Inr k \<and> nodes st' k = Some (File c)"
proof -
  from assms obtain st1 st2 where
    o: "open_w (join base (strip p)) c st1 = Inr st2"
    and st': "st' = print (''Written: '' @ strip p) st2"
    by (rule write_one_pair)
  from open_w_resolve [OF o] show ?thesis by (auto simp: st' resolve_print)
qed

lemma join_relative: "\<not> prefix ''/'' b \<Longrightarrow> join base b = base @ ''/'' @ b"
  by (cases b) (auto simp: join_def base_def)

section \<open>Documents made of well-formed sections\<close>

subsection \<open>A pattern that does not overlap itself\<close>

lemma no_overlap:
  assumes nb: "\<And>n. 0 < n \<Longrightarrow> n < length P \<Longrightarrow> drop n P \<noteq> take (length P - n) P"
    and ns: "\<not> sublist P t" and w: "suffix w t" "w \<noteq> []"
  shows "\<not> prefix P (w @ P @ rest)"
proof
  assume pf: "prefix P (w @ P @ rest)"
  show False
  proof (cases "length P \<le> length w")
    case True
    with pf have "prefix P w" by (simp add: prefix_long)
    then obtain w' where "w = P @ w'" by (auto simp: prefix_def)
    moreover from w(1) obtain v where "t = v @ w" by (auto simp: suffix_def)
    ultimately have "t = v @ P @ w'" by simp
    then have "sublist P t" unfolding sublist_def by blast
    with ns show False ..
  next
    case False
    let ?n = "length w"
    from False w(2) have n: "0 < ?n" "?n < length P" by simp_all
    from pf obtain zs where z: "w @ P @ rest = P @ zs" by (auto simp: prefix_def)
    have "take (length P) (w @ P @ rest) = P" by (simp only: z) simp
    moreover have "take (length P) (w @ P @ rest) = w @ take (length P - ?n) P"
      using False by simp
    ultimately have "w @ take (length P - ?n) P = P" by simp
    then have "drop ?n (w @ take (length P - ?n) P) = drop ?n P" by simp
    then have "take (length P - ?n) P = drop ?n P" by simp
    with nb [OF n] show False by simp
  qed
qed

lemma open_no_border:
  assumes "0 < n" and "n < length hdr_open"
  shows "drop n hdr_open \<noteq> take (length hdr_open - n) hdr_open"
proof -
  have all: "\<forall>n\<in>set [1..<6]. drop n hdr_open \<noteq> take (length hdr_open - n) hdr_open"
    by code_simp
  from assms have "n \<in> set [1..<6]" by (simp add: hdr_open_def)
  with all show ?thesis by (rule bspec)
qed

lemma fence_no_border:
  assumes "0 < n" and "n < length fence_close"
  shows "drop n fence_close \<noteq> take (length fence_close - n) fence_close"
proof -
  have all: "\<forall>n\<in>set [1..<4]. drop n fence_close \<noteq> take (length fence_close - n) fence_close"
    by code_simp
  from assms have "n \<in> set [1..<4]" by (simp add: fence_close_def)
  with all show ?thesis by (rule bspec)
qed

lemma first_fence_if_absent:
  assumes "\<not> sublist fence_close c"
  shows "first_fence c"
  unfolding first_fence_def
proof (intro allI impI)
  fix i assume i: "i < length c"
  have "\<not> prefix fence_close (drop i c @ fence_close @ [])"
  proof (rule no_overlap)
    show "\<not> sublist fence_close c" by (rule assms)
    show "suffix (drop i c) c" by (rule suffix_drop)
    from i show "drop i c \<noteq> []" by simp
  qed (rule fence_no_border)
  then show "\<not> prefix fence_close (drop i c @ fence_close)" by simp
qed

subsection \<open>The pattern finds every well-formed section\<close>

lemma first_fence_Cons:
  assumes "first_fence (x # c)"
  shows "\<not> prefix fence_close (x # c @ fence_close @ r)" and "first_fence c"
proof -
  from assms [unfolded first_fence_def, THEN spec, of 0]
  have "\<not> prefix fence_close ((x # c) @ fence_close)" by simp
  moreover have "prefix fence_close (((x # c) @ fence_close) @ r)
      = prefix fence_close ((x # c) @ fence_close)"
    by (rule prefix_long) (simp add: fence_close_length)
  ultimately show "\<not> prefix fence_close (x # c @ fence_close @ r)" by simp
  show "first_fence c"
    unfolding first_fence_def
  proof (intro allI impI)
    fix i assume "i < length c"
    with assms [unfolded first_fence_def, THEN spec, of "Suc i"]
    show "\<not> prefix fence_close (drop i c @ fence_close)" by simp
  qed
qed

lemma match_code_fence: "match_code acc (fence_close @ r) = Some (acc, r)"
  by (simp add: fence_close_def)

lemma match_code_complete:
  "first_fence c \<Longrightarrow> match_code acc (c @ fence_close @ r) = Some (acc @ c, r)"
proof (induction c arbitrary: acc)
  case Nil
  then show ?case by (simp only: append_Nil append_Nil2 match_code_fence)
next
  case (Cons x c)
  note np = first_fence_Cons(1) [OF Cons.prems, of r]
  note ff = first_fence_Cons(2) [OF Cons.prems]
  have "match_code acc (x # c @ fence_close @ r) = match_code (acc @ [x]) (c @ fence_close @ r)"
    using np by (simp only: match_code.simps if_False)
  also have "\<dots> = Some ((acc @ [x]) @ c, r)" by (rule Cons.IH [OF ff])
  finally show ?case by simp
qed

lemma header_rest: "ext @ hdr_close = ''.swift**'' @ NL # ''```swift\<newline>''"
  by (simp add: ext_def hdr_close_def)

lemma prefix_nth: "prefix xs ys \<Longrightarrow> i < length xs \<Longrightarrow> ys ! i = xs ! i"
  by (auto simp: prefix_def nth_append)

lemma header_not_early:
  assumes "NL \<notin> set w" and "w \<noteq> []"
  shows "\<not> prefix (ext @ hdr_close) (w @ ext @ hdr_close @ X)"
proof
  assume pf: "prefix (ext @ hdr_close) (w @ ext @ hdr_close @ X)"
  have e8: "(ext @ hdr_close) ! 8 = NL" by code_simp
  have l: "8 < length (ext @ hdr_close)" by code_simp
  from prefix_nth [OF pf l] e8 have a: "(w @ ext @ hdr_close @ X) ! 8 = NL" by simp
  have "w @ ext @ hdr_close @ X = (w @ ''.swift**'') @ NL # ''```swift\<newline>'' @ X"
    using header_rest by simp
  moreover from assms(2) have "8 < length (w @ ''.swift**'')" by (cases w) simp_all
  ultimately have "(w @ ext @ hdr_close @ X) ! 8 = (w @ ''.swift**'') ! 8"
    by (simp only: nth_append if_True)
  with a have "(w @ ''.swift**'') ! 8 = NL" by simp
  moreover from assms(2) have "(w @ ''.swift**'') ! 8 \<in> set (w @ ''.swift**'')"
    by (intro nth_mem) (cases w, simp_all)
  ultimately have "NL \<in> set (w @ ''.swift**'')" by simp
  with assms(1) show False by simp
qed

lemma match_path_here:
  assumes "first_fence c"
  shows "match_path acc (ext @ hdr_close @ c @ fence_close @ r) = Some (acc @ ext, c, r)"
proof -
  obtain y ys where e: "ext @ hdr_close = y # ys"
    by (cases "ext @ hdr_close") (simp_all add: ext_def)
  have "(ext @ hdr_close) @ c @ fence_close @ r = (y # ys) @ c @ fence_close @ r"
    by (simp only: e)
  then have s: "ext @ hdr_close @ c @ fence_close @ r = y # (ys @ c @ fence_close @ r)"
    by simp
  have p: "prefix (ext @ hdr_close) (y # (ys @ c @ fence_close @ r))"
    by (simp add: e)
  have d: "drop (length (ext @ hdr_close)) (y # (ys @ c @ fence_close @ r)) = c @ fence_close @ r"
    by (simp add: e)
  have m: "match_code [] (c @ fence_close @ r) = Some (c, r)"
    using match_code_complete [OF assms, of "[]" r] by simp
  show ?thesis
    by (simp only: s match_path.simps p d if_True m option.case prod.case)
qed

lemma match_path_complete:
  "NL \<notin> set w \<Longrightarrow> first_fence c \<Longrightarrow>
   match_path acc (w @ ext @ hdr_close @ c @ fence_close @ r) = Some (acc @ w @ ext, c, r)"
proof (induction w arbitrary: acc)
  case Nil
  from match_path_here [OF Nil.prems(2)] show ?case by simp
next
  case (Cons x w)
  let ?X = "c @ fence_close @ r"
  from Cons.prems(1) have "\<not> prefix (ext @ hdr_close) ((x # w) @ ext @ hdr_close @ ?X)"
    by (intro header_not_early) simp_all
  then have np: "\<not> prefix (ext @ hdr_close) (x # w @ ext @ hdr_close @ ?X)" by simp
  have "match_path acc (x # w @ ext @ hdr_close @ ?X)
      = match_path (acc @ [x]) (w @ ext @ hdr_close @ ?X)"
    using np by (simp only: match_path.simps if_False option.case)
  also from Cons.prems have "\<dots> = Some ((acc @ [x]) @ w @ ext, c, r)"
    by (intro Cons.IH) simp_all
  finally show ?case by simp
qed

lemma match_at_complete:
  assumes "suffix ext p" and "p \<noteq> ext" and "NL \<notin> set p" and "first_fence c"
  shows "match_at (hdr_open @ p @ hdr_close @ c @ fence_close @ r) = Some (p, c, r)"
proof -
  from assms(1) obtain zs where z: "p = zs @ ext" by (auto simp: suffix_def)
  with assms(2) have "zs \<noteq> []" by auto
  then obtain x w where "zs = x # w" by (cases zs) auto
  with z have p: "p = (x # w) @ ext" by simp
  from assms(3) p have nl: "NL \<notin> set w" by simp
  let ?s = "hdr_open @ p @ hdr_close @ c @ fence_close @ r"
  have d: "drop (length hdr_open) ?s = x # (w @ ext @ hdr_close @ c @ fence_close @ r)"
    by (simp add: p)
  have pf: "prefix hdr_open ?s" by simp
  have "match_at ?s = match_path [x] (w @ ext @ hdr_close @ c @ fence_close @ r)"
    by (simp only: match_at_def d pf if_True list.case)
  also have "\<dots> = Some ([x] @ w @ ext, c, r)"
    by (rule match_path_complete [OF nl assms(4)])
  finally show ?thesis by (simp add: p)
qed

lemma match_at_no_prefix: "\<not> prefix hdr_open s \<Longrightarrow> match_at s = None"
  by (simp add: match_at_def)

lemma findall_skip:
  "\<not> sublist hdr_open t \<Longrightarrow> findall (t @ hdr_open @ X) = findall (hdr_open @ X)"
proof (induction t)
  case Nil
  then show ?case by simp
next
  case (Cons x t)
  have "\<not> prefix hdr_open ((x # t) @ hdr_open @ X)"
  proof (rule no_overlap)
    show "\<not> sublist hdr_open (x # t)" by (rule Cons.prems)
    show "suffix (x # t) (x # t)" by simp
    show "x # t \<noteq> []" by simp
  qed (rule open_no_border)
  then have "match_at (x # t @ hdr_open @ X) = None"
    by (intro match_at_no_prefix) simp
  then have "findall ((x # t) @ hdr_open @ X) = findall (t @ hdr_open @ X)"
    by (subst findall.simps) simp
  moreover from Cons.prems have "\<not> sublist hdr_open t"
    by (auto simp: sublist_Cons_right)
  ultimately show ?case using Cons.IH by simp
qed

lemma findall_no_mark: "\<not> sublist hdr_open t \<Longrightarrow> findall t = []"
proof (induction t)
  case Nil
  have "match_at [] = None" by (simp add: match_at_def hdr_open_def)
  then show ?case by (subst findall.simps) simp
next
  case (Cons x t)
  from Cons.prems have "\<not> prefix hdr_open (x # t)"
    by (meson prefix_imp_sublist)
  then have "match_at (x # t) = None" by (rule match_at_no_prefix)
  then have "findall (x # t) = findall t" by (subst findall.simps) simp
  moreover from Cons.prems have "\<not> sublist hdr_open t"
    by (auto simp: sublist_Cons_right)
  ultimately show ?case using Cons.IH by simp
qed

lemma findall_document:
  "\<forall>s\<in>set secs. well_formed s \<Longrightarrow> \<not> sublist hdr_open tail \<Longrightarrow>
   findall (document secs tail) = map (\<lambda>s. (sec_path s, sec_code s)) secs"
proof (induction secs)
  case Nil
  then show ?case by (simp add: findall_no_mark)
next
  case (Cons s secs)
  from Cons.prems(1) have wf: "well_formed s" by simp
  let ?rest = "document secs tail"
  let ?X = "sec_path s @ hdr_close @ sec_code s @ fence_close @ ?rest"
  from wf have ff: "first_fence (sec_code s)"
    by (intro first_fence_if_absent) (simp add: well_formed_def)
  from wf have "match_at (hdr_open @ ?X) = Some (sec_path s, sec_code s, ?rest)"
    by (intro match_at_complete ff) (simp_all add: well_formed_def)
  then have "findall (hdr_open @ ?X) = (sec_path s, sec_code s) # findall ?rest"
    by (subst findall.simps) simp
  moreover from wf have "findall (sec_lead s @ hdr_open @ ?X) = findall (hdr_open @ ?X)"
    by (intro findall_skip) (simp add: well_formed_def)
  moreover have "document (s # secs) tail = sec_lead s @ hdr_open @ ?X"
    by (simp add: section_text_def)
  ultimately show ?case using Cons.IH Cons.prems by simp
qed

subsection \<open>Where the files end up\<close>

lemma resolve_mono:
  assumes "grows (nodes st) (nodes t)" and "cwd t = cwd st" and "resolve st p = Inr k"
  shows "resolve t p = Inr k"
proof -
  from assms(3) have p: "p \<noteq> []" and w: "walk (nodes st) (start st p) (split_sep p) = Inr k"
    and n: "node_at (nodes st) k \<noteq> None"
    by (auto simp: resolve_def split: if_splits sum.splits option.splits)
  from n obtain x where "node_at (nodes st) k = Some x" by auto
  from grows_Some [OF assms(1) this] obtain y where y: "node_at (nodes t) k = Some y" ..
  from assms(2) have "start t p = start st p" by (simp add: start_def)
  with walk_mono [OF assms(1) w] have "walk (nodes t) (start t p) (split_sep p) = Inr k" by simp
  with p y show ?thesis by (simp add: resolve_def)
qed

lemma open_w_effect:
  assumes "open_w p d st = Inr st'"
  shows "\<exists>k. resolve st' p = Inr k \<and> k \<noteq> [] \<and> node_at (nodes st) k \<noteq> Some Dir \<and>
           st' = st\<lparr>nodes := (nodes st)(k \<mapsto> File d)\<rparr>"
proof -
  from assms obtain k where k: "walk (nodes st) (start st p) (butlast (split_sep p)) = Inr k"
    "node_at (nodes st) k = Some Dir"
    "last (split_sep p) \<noteq> []" "last (split_sep p) \<noteq> ''.''" "last (split_sep p) \<noteq> ''..''"
    "node_at (nodes st) (k @ [last (split_sep p)]) \<noteq> Some Dir"
    "st' = st\<lparr>nodes := (nodes st)(k @ [last (split_sep p)] \<mapsto> File d)\<rparr>" "p \<noteq> []"
    by (rule open_w_Inr)
  let ?n = "last (split_sep p)"
  let ?ns' = "(nodes st)(k @ [?n] \<mapsto> File d)"
  have g: "grows (nodes st) ?ns'" using k(6) by (intro grows_write) simp_all
  from walk_mono [OF g k(1)] have w: "walk ?ns' (start st p) (butlast (split_sep p)) = Inr k" .
  from grows_Dir [OF g k(2)] have dk: "node_at ?ns' k = Some Dir" .
  have nk: "node_at ?ns' (k @ [?n]) = Some (File d)" by (simp add: node_at_def)
  have one: "walk ?ns' k [?n] = Inr (k @ [?n])"
    using dk nk k(3,4,5) by simp
  have "walk ?ns' (start st p) (butlast (split_sep p) @ [?n]) = walk ?ns' k [?n]"
    by (subst walk_append) (simp only: w sum.case)
  with one have wp: "walk ?ns' (start st p) (split_sep p) = Inr (k @ [?n])" by simp
  have n': "nodes st' = ?ns'" and s': "start st' p = start st p"
    using k(7) by (simp_all add: start_def)
  have "resolve st' p = Inr (k @ [?n])"
    by (simp add: resolve_def n' s' wp nk k(8))
  with k(6,7) show ?thesis by (intro exI [of _ "k @ [?n]"]) simp
qed

lemma write_one_frame:
  assumes "write_one m st = (None, st')"
  shows "\<exists>k. resolve st' (dest (fst m)) = Inr k \<and> nodes st' k = Some (File (snd m)) \<and>
           cwd st' = cwd st \<and>
           stdout st' = stdout st @ [''Written: '' @ strip (fst m)] \<and>
           (\<forall>k'. k' \<noteq> k \<longrightarrow> nodes st' k' = nodes st k' \<or>
                  (node_at (nodes st) k' = None \<and> nodes st' k' = Some Dir))"
proof -
  from assms obtain st1 st2 where m1: "makedirs (dirname (dest (fst m))) st = (None, st1)"
    and o: "open_w (dest (fst m)) (snd m) st1 = Inr st2"
    and st': "st' = print (''Written: '' @ strip (fst m)) st2"
    unfolding dest_def by (rule write_one_None)
  from makedirs_extends [OF m1] have e: "extends st st1" .
  from open_w_effect [OF o] obtain k where k: "resolve st2 (dest (fst m)) = Inr k" "k \<noteq> []"
    "st2 = st1\<lparr>nodes := (nodes st1)(k \<mapsto> File (snd m))\<rparr>" by blast
  have ns: "nodes st' = (nodes st1)(k \<mapsto> File (snd m))" by (simp add: st' k(3) print_def)
  have "resolve st' (dest (fst m)) = Inr k" by (simp only: st' resolve_print k(1))
  moreover have "nodes st' k = Some (File (snd m))" by (simp add: ns)
  moreover from e have "cwd st' = cwd st" by (simp add: st' k(3) print_def extends_def)
  moreover from e have "stdout st' = stdout st @ [''Written: '' @ strip (fst m)]"
    by (simp add: st' k(3) print_def extends_def)
  moreover have "nodes st' k' = nodes st k' \<or>
      (node_at (nodes st) k' = None \<and> nodes st' k' = Some Dir)" if "k' \<noteq> k" for k'
    using e [unfolded extends_def, THEN conjunct2, THEN conjunct2, THEN spec, of k'] that
    by (simp add: ns)
  ultimately show ?thesis by blast
qed

definition writes :: "(string \<times> string) list \<Rightarrow> sys \<Rightarrow> sys \<Rightarrow> bool" where
  "writes ms st st' =
     (\<forall>k. nodes st' k = nodes st k
        \<or> (node_at (nodes st) k = None \<and> nodes st' k = Some Dir)
        \<or> (\<exists>m\<in>set ms. resolve st' (dest (fst m)) = Inr k))"

lemma write_matches_frame:
  "write_matches ms st = (None, st') \<Longrightarrow>
     writes ms st st' \<and> cwd st' = cwd st \<and>
     stdout st' = stdout st @ map (\<lambda>m. ''Written: '' @ strip (fst m)) ms"
proof (induction ms arbitrary: st)
  case Nil
  then show ?case by (simp add: writes_def)
next
  case (Cons m ms)
  obtain r1 s2 where w: "write_one m st = (r1, s2)" by (cases "write_one m st")
  with Cons.prems have r1: "r1 = None" and run: "write_matches ms s2 = (None, st')"
    by (auto split: option.splits)
  from write_one_frame [OF w [unfolded r1]] obtain k1 where
    k1: "resolve s2 (dest (fst m)) = Inr k1" "cwd s2 = cwd st"
    "stdout s2 = stdout st @ [''Written: '' @ strip (fst m)]"
    "\<forall>k'. k' \<noteq> k1 \<longrightarrow> nodes s2 k' = nodes st k' \<or>
                  (node_at (nodes st) k' = None \<and> nodes s2 k' = Some Dir)"
    by blast
  from Cons.IH [OF run] have ih: "writes ms s2 st'" and c: "cwd st' = cwd s2"
    and out: "stdout st' = stdout s2 @ map (\<lambda>m. ''Written: '' @ strip (fst m)) ms"
    by simp_all
  from write_matches_grows [OF run] have g: "grows (nodes s2) (nodes st')" by simp
  from resolve_mono [OF g c k1(1)] have r: "resolve st' (dest (fst m)) = Inr k1" .
  have "writes (m # ms) st st'"
    unfolding writes_def
  proof
    fix k
    let ?goal = "nodes st' k = nodes st k
        \<or> (node_at (nodes st) k = None \<and> nodes st' k = Some Dir)
        \<or> (\<exists>m\<in>set (m # ms). resolve st' (dest (fst m)) = Inr k)"
    note ih [unfolded writes_def, THEN spec, of k]
    then show ?goal
    proof (elim disjE conjE)
      assume "\<exists>m\<in>set ms. resolve st' (dest (fst m)) = Inr k"
      then show ?thesis by auto
    next
      assume same: "nodes st' k = nodes s2 k"
      show ?thesis
      proof (cases "k = k1")
        case True
        with r show ?thesis by simp
      next
        case False
        with k1(4) have "nodes s2 k = nodes st k \<or>
                  (node_at (nodes st) k = None \<and> nodes s2 k = Some Dir)" by simp
        with same show ?thesis by auto
      qed
    next
      assume dir: "node_at (nodes s2) k = None" "nodes st' k = Some Dir"
      show ?thesis
      proof (cases "k = k1")
        case True
        with r show ?thesis by simp
      next
        case False
        with k1(4) have "nodes s2 k = nodes st k \<or>
                  (node_at (nodes st) k = None \<and> nodes s2 k = Some Dir)" by simp
        with dir show ?thesis by (auto simp: node_at_def split: if_splits)
      qed
    qed
  qed
  with c k1(2,3) out show ?case by simp
qed

lemma write_matches_files:
  "write_matches ms st = (None, st') \<Longrightarrow>
   distinct (map (\<lambda>m. resolve st' (dest (fst m))) ms) \<Longrightarrow>
   \<forall>m\<in>set ms. \<exists>k. resolve st' (dest (fst m)) = Inr k \<and> nodes st' k = Some (File (snd m))"
proof (induction ms arbitrary: st)
  case Nil
  then show ?case by simp
next
  case (Cons m ms)
  obtain r1 s2 where w: "write_one m st = (r1, s2)" by (cases "write_one m st")
  with Cons.prems(1) have r1: "r1 = None" and run: "write_matches ms s2 = (None, st')"
    by (auto split: option.splits)
  from write_one_frame [OF w [unfolded r1]] obtain k1 where
    k1: "resolve s2 (dest (fst m)) = Inr k1" "nodes s2 k1 = Some (File (snd m))"
    by blast
  from write_matches_frame [OF run] have f: "writes ms s2 st'" and c: "cwd st' = cwd s2"
    by simp_all
  from write_matches_grows [OF run] have g: "grows (nodes s2) (nodes st')" by simp
  from resolve_mono [OF g c k1(1)] have r: "resolve st' (dest (fst m)) = Inr k1" .
  have nolater: "\<not> (\<exists>m'\<in>set ms. resolve st' (dest (fst m')) = Inr k1)"
  proof
    assume "\<exists>m'\<in>set ms. resolve st' (dest (fst m')) = Inr k1"
    then obtain m' where "m' \<in> set ms" "resolve st' (dest (fst m')) = Inr k1" ..
    then have "Inr k1 \<in> (\<lambda>m. resolve st' (dest (fst m))) ` set ms" by (metis imageI)
    moreover from Cons.prems(2) r have "Inr k1 \<notin> (\<lambda>m. resolve st' (dest (fst m))) ` set ms"
      by simp
    ultimately show False by (rule notE [rotated])
  qed
  from k1(2) have "node_at (nodes s2) k1 \<noteq> None" by (simp add: node_at_def)
  with f [unfolded writes_def, THEN spec, of k1] nolater
  have "nodes st' k1 = nodes s2 k1" by simp
  with k1(2) r have here: "\<exists>k. resolve st' (dest (fst m)) = Inr k \<and> nodes st' k = Some (File (snd m))"
    by simp
  from Cons.prems(2) have "distinct (map (\<lambda>m. resolve st' (dest (fst m))) ms)" by simp
  from Cons.IH [OF run this] here show ?case by simp
qed

text \<open>
  Every turn of a run that ends without error is a turn that ends without error; and the
  file of a destination holds the code of the last match that has this destination.
\<close>

lemma write_matches_turn:
  "write_matches ms st = (None, st') \<Longrightarrow> i < length ms \<Longrightarrow>
   \<exists>s1 s2. write_matches (take i ms) st = (None, s1) \<and> write_one (ms ! i) s1 = (None, s2)
         \<and> write_matches (drop (Suc i) ms) s2 = (None, st')"
proof (induction ms arbitrary: st i)
  case Nil
  then show ?case by simp
next
  case (Cons m ms)
  obtain r1 s2 where w: "write_one m st = (r1, s2)" by (cases "write_one m st")
  with Cons.prems(1) have r1: "r1 = None" and run: "write_matches ms s2 = (None, st')"
    by (auto split: option.splits)
  show ?case
  proof (cases i)
    case 0
    with w r1 run show ?thesis by simp
  next
    case (Suc j)
    with Cons.prems(2) have "j < length ms" by simp
    from Cons.IH [OF run this] w r1 Suc show ?thesis by simp
  qed
qed

lemma write_matches_last:
  "write_matches ms st = (None, st') \<Longrightarrow> i < length ms \<Longrightarrow>
   \<forall>j. i < j \<and> j < length ms \<longrightarrow>
       resolve st' (dest (fst (ms ! j))) \<noteq> resolve st' (dest (fst (ms ! i))) \<Longrightarrow>
   \<exists>k. resolve st' (dest (fst (ms ! i))) = Inr k \<and> nodes st' k = Some (File (snd (ms ! i)))"
proof (induction ms arbitrary: st i)
  case Nil
  then show ?case by simp
next
  case (Cons m ms)
  obtain r1 s2 where w: "write_one m st = (r1, s2)" by (cases "write_one m st")
  with Cons.prems(1) have r1: "r1 = None" and run: "write_matches ms s2 = (None, st')"
    by (auto split: option.splits)
  show ?case
  proof (cases i)
    case 0
    from write_one_frame [OF w [unfolded r1]] obtain k1 where
      k1: "resolve s2 (dest (fst m)) = Inr k1" "nodes s2 k1 = Some (File (snd m))"
      by blast
    from write_matches_frame [OF run] have f: "writes ms s2 st'" and c: "cwd st' = cwd s2"
      by simp_all
    from write_matches_grows [OF run] have g: "grows (nodes s2) (nodes st')" by simp
    from resolve_mono [OF g c k1(1)] have r: "resolve st' (dest (fst m)) = Inr k1" .
    have nolater: "\<not> (\<exists>m'\<in>set ms. resolve st' (dest (fst m')) = Inr k1)"
    proof
      assume "\<exists>m'\<in>set ms. resolve st' (dest (fst m')) = Inr k1"
      then obtain m' where "m' \<in> set ms" and e: "resolve st' (dest (fst m')) = Inr k1" by blast
      then obtain j where j: "j < length ms" "ms ! j = m'" by (auto simp: in_set_conv_nth)
      from Cons.prems(3) [THEN spec, of "Suc j"] 0 j(1)
      have "resolve st' (dest (fst ((m # ms) ! Suc j))) \<noteq> resolve st' (dest (fst ((m # ms) ! 0)))"
        by simp
      with j(2) e r show False by simp
    qed
    from k1(2) have "node_at (nodes s2) k1 \<noteq> None" by (simp add: node_at_def)
    with f [unfolded writes_def, THEN spec, of k1] nolater
    have "nodes st' k1 = nodes s2 k1" by simp
    with k1(2) r 0 show ?thesis by simp
  next
    case (Suc i')
    with Cons.prems(2) have l: "i' < length ms" by simp
    have "\<forall>j. i' < j \<and> j < length ms \<longrightarrow>
       resolve st' (dest (fst (ms ! j))) \<noteq> resolve st' (dest (fst (ms ! i')))"
    proof (intro allI impI)
      fix j assume "i' < j \<and> j < length ms"
      with Cons.prems(3) [THEN spec, of "Suc j"] Suc
      show "resolve st' (dest (fst (ms ! j))) \<noteq> resolve st' (dest (fst (ms ! i')))" by simp
    qed
    from Cons.IH [OF run l this] Suc show ?thesis by simp
  qed
qed

section \<open>Properties of the inspector\<close>

text \<open>
  C5. When the file can be read and its first record holds the four columns, the
  inspector prints one line with the four values for each of the first five non-empty
  data records, then the total count of the non-empty data records, and ends without
  an error. With ten data records that is five preview lines followed by
  \<^verbatim>\<open>Total rows: 10\<close>.
\<close>

theorem inspector_preview:
  assumes "read_text st csv_path = Inr text"
    and "csv_reader text = fieldnames # recs"
    and "set columns \<subseteq> set fieldnames"
  shows "inspector csv_reader st =
           (None, st\<lparr>stdout := stdout st
              @ map preview_line (take 5 (map (dict_row fieldnames) (filter (\<lambda>r. r \<noteq> []) recs)))
              @ [''Total rows: '' @ str_nat (length (filter (\<lambda>r. r \<noteq> []) recs))]\<rparr>)
         \<and> (length (filter (\<lambda>r. r \<noteq> []) recs) = 10 \<longrightarrow>
              (\<exists>ls. length ls = 5 \<and>
                 stdout (snd (inspector csv_reader st)) = stdout st @ ls @ [''Total rows: 10'']))"
proof -
  let ?rows = "map (dict_row fieldnames) (filter (\<lambda>r. r \<noteq> []) recs)"
  have "\<forall>r\<in>set ?rows. preview r = Inr (preview_line r)"
    using assms(3) by (auto simp: preview_present)
  from rows_loop_ok [OF this, of 0 st] assms(1,2)
  have run: "inspector csv_reader st =
           (None, st\<lparr>stdout := stdout st @ map preview_line (take 5 ?rows)
              @ [''Total rows: '' @ str_nat (length (filter (\<lambda>r. r \<noteq> []) recs))]\<rparr>)"
    by (simp add: inspector_def dict_reader_def print_def)
  have "\<exists>ls. length ls = 5 \<and>
          stdout (snd (inspector csv_reader st)) = stdout st @ ls @ [''Total rows: 10'']"
    if ten: "length (filter (\<lambda>r. r \<noteq> []) recs) = 10"
  proof -
    from ten have "length (map preview_line (take 5 ?rows)) = 5" by simp
    with run ten show ?thesis
      by (intro exI [of _ "map preview_line (take 5 ?rows)"]) (simp add: str_nat_10)
  qed
  with run show ?thesis by blast
qed

theorem inspector_preview_witness:
  "read_text (csv_sys text10) csv_path = Inr text10
   \<and> plain_reader text10 = [''MSIS'', ''D1OP'', ''DTOP'', ''SCALE_SCORE''] #
     [[''1'', ''a'', ''b'', ''10''], [''2'', ''a'', ''b'', ''20''], [''3'', ''a'', ''b'', ''30''],
      [''4'', ''a'', ''b'', ''40''], [''5'', ''a'', ''b'', ''50''], [''6'', ''a'', ''b'', ''60''],
      [''7'', ''a'', ''b'', ''70''], [''8'', ''a'', ''b'', ''80''], [''9'', ''a'', ''b'', ''90''],
      [''10'', ''a'', ''b'', ''99'']]
   \<and> set columns \<subseteq> set [''MSIS'', ''D1OP'', ''DTOP'', ''SCALE_SCORE'']
   \<and> stdout (snd (inspector plain_reader (csv_sys text10))) =
     [''MSIS: 1, D1OP: a, DTOP: b, SCALE: 10'', ''MSIS: 2, D1OP: a, DTOP: b, SCALE: 20'',
      ''MSIS: 3, D1OP: a, DTOP: b, SCALE: 30'', ''MSIS: 4, D1OP: a, DTOP: b, SCALE: 40'',
      ''MSIS: 5, D1OP: a, DTOP: b, SCALE: 50'', ''Total rows: 10'']"
proof -
  have r: "read_text (csv_sys text10) csv_path = Inr text10"
    by (simp add: eval_defs text10_def)
  have p: "plain_reader text10 = [''MSIS'', ''D1OP'', ''DTOP'', ''SCALE_SCORE''] #
     [[''1'', ''a'', ''b'', ''10''], [''2'', ''a'', ''b'', ''20''], [''3'', ''a'', ''b'', ''30''],
      [''4'', ''a'', ''b'', ''40''], [''5'', ''a'', ''b'', ''50''], [''6'', ''a'', ''b'', ''60''],
      [''7'', ''a'', ''b'', ''70''], [''8'', ''a'', ''b'', ''80''], [''9'', ''a'', ''b'', ''90''],
      [''10'', ''a'', ''b'', ''99'']]"
    by (simp add: eval_defs text10_def)
  have c: "set columns \<subseteq> set [''MSIS'', ''D1OP'', ''DTOP'', ''SCALE_SCORE'']"
    by (simp add: columns_def)
  have "stdout (snd (inspector plain_reader (csv_sys text10))) =
     [''MSIS: 1, D1OP: a, DTOP: b, SCALE: 10'', ''MSIS: 2, D1OP: a, DTOP: b, SCALE: 20'',
      ''MSIS: 3, D1OP: a, DTOP: b, SCALE: 30'', ''MSIS: 4, D1OP: a, DTOP: b, SCALE: 40'',
      ''MSIS: 5, D1OP: a, DTOP: b, SCALE: 50'', ''Total rows: 10'']"
    using inspector_preview [where csv_reader = plain_reader, OF r p c]
    by (simp add: csv_sys_def preview_line_def field_text_def dict_row_def str_nat.simps)
  with r p c show ?thesis by blast
qed

text \<open>
  C6. When the file can be read and every record after the first one is empty (a header
  row and no data row), the inspector prints no preview line and the one line
  \<^verbatim>\<open>Total rows: 0\<close>, and ends without an error.
\<close>

theorem inspector_header_only:
  assumes "read_text st csv_path = Inr text"
    and "csv_reader text = fieldnames # recs"
    and "\<forall>r\<in>set recs. r = []"
  shows "inspector csv_reader st = (None, st\<lparr>stdout := stdout st @ [''Total rows: 0'']\<rparr>)"
proof -
  from assms(3) have "filter (\<lambda>r. r \<noteq> []) recs = []"
    by (simp add: filter_empty_conv)
  with assms(1,2) show ?thesis
    by (simp add: inspector_def dict_reader_def print_def str_nat_0)
qed

theorem inspector_header_only_witness:
  "read_text (csv_sys ''MSIS,D1OP,DTOP,SCALE_SCORE\<newline>'') csv_path
     = Inr ''MSIS,D1OP,DTOP,SCALE_SCORE\<newline>''
   \<and> plain_reader ''MSIS,D1OP,DTOP,SCALE_SCORE\<newline>''
     = [''MSIS'', ''D1OP'', ''DTOP'', ''SCALE_SCORE''] # []
   \<and> fst (inspector plain_reader (csv_sys ''MSIS,D1OP,DTOP,SCALE_SCORE\<newline>'')) = None
   \<and> stdout (snd (inspector plain_reader (csv_sys ''MSIS,D1OP,DTOP,SCALE_SCORE\<newline>'')))
     = [''Total rows: 0'']"
proof -
  let ?t = "''MSIS,D1OP,DTOP,SCALE_SCORE\<newline>''"
  have r: "read_text (csv_sys ?t) csv_path = Inr ?t"
    by (simp add: eval_defs)
  have p: "plain_reader ?t = [''MSIS'', ''D1OP'', ''DTOP'', ''SCALE_SCORE''] # []"
    by (simp add: eval_defs)
  have e: "\<forall>r\<in>set ([] :: string list list). r = []" by simp
  from inspector_header_only [where csv_reader = plain_reader, OF r p e] r p show ?thesis
    by (simp add: csv_sys_def)
qed

text \<open>
  C8, as the code has it. The inspector ends with the error of \<^verbatim>\<open>open\<close> when the file
  cannot be opened for reading, and with a \<^verbatim>\<open>KeyError\<close> for one of the four columns
  when the first record lacks it and there is at least one non-empty data record; in both
  cases nothing has been printed.
\<close>

theorem inspector_fails:
  "(read_text st csv_path = Inl e \<longrightarrow> inspector csv_reader st = (Some e, st))
   \<and> (read_text st csv_path = Inr text \<and> csv_reader text = fieldnames # recs
        \<and> \<not> set columns \<subseteq> set fieldnames \<and> (\<exists>r\<in>set recs. r \<noteq> [])
      \<longrightarrow> (\<exists>k. k \<in> set columns \<and> k \<notin> set fieldnames
             \<and> inspector csv_reader st = (Some (KeyError k), st)))"
proof (intro conjI impI)
  assume "read_text st csv_path = Inl e"
  then show "inspector csv_reader st = (Some e, st)"
    by (simp add: inspector_def)
next
  assume a: "read_text st csv_path = Inr text \<and> csv_reader text = fieldnames # recs
        \<and> \<not> set columns \<subseteq> set fieldnames \<and> (\<exists>r\<in>set recs. r \<noteq> [])"
  then obtain r rs where f: "filter (\<lambda>r. r \<noteq> []) recs = r # rs"
    by (cases "filter (\<lambda>r. r \<noteq> []) recs") (auto simp: filter_empty_conv)
  from a preview_absent [of fieldnames r] obtain k where
    k: "k \<in> set columns" "k \<notin> set fieldnames" "preview (dict_row fieldnames r) = Inl (KeyError k)"
    by blast
  with a f have "inspector csv_reader st = (Some (KeyError k), st)"
    by (simp add: inspector_def dict_reader_def)
  with k show "\<exists>k. k \<in> set columns \<and> k \<notin> set fieldnames
             \<and> inspector csv_reader st = (Some (KeyError k), st)"
    by blast
qed

theorem inspector_fails_witness:
  "read_text (doc_sys []) csv_path = Inl FileNotFoundError
   \<and> inspector plain_reader (doc_sys []) = (Some FileNotFoundError, doc_sys [])
   \<and> read_text (csv_sys ''A,B\<newline>1,2\<newline>'') csv_path = Inr ''A,B\<newline>1,2\<newline>''
   \<and> plain_reader ''A,B\<newline>1,2\<newline>'' = [''A'', ''B''] # [[''1'', ''2'']]
   \<and> \<not> set columns \<subseteq> set [''A'', ''B'']
   \<and> (\<exists>r\<in>set [[''1'', ''2'']]. r \<noteq> [])
   \<and> inspector plain_reader (csv_sys ''A,B\<newline>1,2\<newline>'')
       = (Some (KeyError ''MSIS''), csv_sys ''A,B\<newline>1,2\<newline>'')"
proof -
  let ?t = "''A,B\<newline>1,2\<newline>''"
  have r0: "read_text (doc_sys []) csv_path = Inl FileNotFoundError"
    by (simp add: eval_defs)
  have r: "read_text (csv_sys ?t) csv_path = Inr ?t"
    by (simp add: eval_defs)
  have p: "plain_reader ?t = [''A'', ''B''] # [[''1'', ''2'']]"
    by (simp add: eval_defs)
  have c: "\<not> set columns \<subseteq> set [''A'', ''B'']"
    by (simp add: columns_def)
  have n: "\<exists>r\<in>set [[''1'', ''2'']]. r \<noteq> ([] :: string list)" by simp
  from inspector_fails [of "doc_sys []" FileNotFoundError plain_reader] r0
  have one: "inspector plain_reader (doc_sys []) = (Some FileNotFoundError, doc_sys [])"
    by blast
  from inspector_fails [of "csv_sys ?t" _ plain_reader ?t "[''A'', ''B'']" "[[''1'', ''2'']]"]
    r p c n
  obtain k where "k \<in> set columns" "k \<notin> set [''A'', ''B'']"
    "inspector plain_reader (csv_sys ?t) = (Some (KeyError k), csv_sys ?t)"
    by blast
  moreover have "fst (inspector plain_reader (csv_sys ?t)) = Some (KeyError ''MSIS'')"
    using r p
    by (simp add: inspector_def dict_reader_def preview_def get_item_def dict_row_def)
  ultimately have two: "inspector plain_reader (csv_sys ?t) = (Some (KeyError ''MSIS''), csv_sys ?t)"
    by simp
  from r0 one r p c n two show ?thesis by blast
qed

text \<open>
  C8 as stated fails: the header \<^verbatim>\<open>A,B\<close> lacks the four columns, and with no data row the
  inspector raises nothing.
\<close>

theorem inspector_missing_column_counterexample:
  "plain_reader ''A,B\<newline>'' = [[''A'', ''B'']]
   \<and> \<not> set columns \<subseteq> set [''A'', ''B'']
   \<and> fst (inspector plain_reader (csv_sys ''A,B\<newline>'')) = None
   \<and> stdout (snd (inspector plain_reader (csv_sys ''A,B\<newline>''))) = [''Total rows: 0'']"
  by (simp add: eval_defs inspector_def dict_reader_def print_def str_nat_0)

section \<open>Properties of the extractor\<close>

text \<open>
  C4. When the input can be read and no part of it has the form of the pattern (the
  header mark, a non-empty text, \<^verbatim>\<open>.swift\<close>, the rest of the header with the opening
  fence, any text and the closing fence), the pattern has no match, the extractor
  leaves the file tree as it is, prints only its closing message and ends without error.
\<close>

theorem extractor_no_section:
  assumes "read_text st ''remaining_files.txt'' = Inr content"
    and "\<not> (\<exists>pre p c post. p \<noteq> [] \<and>
             content = pre @ hdr_open @ p @ ext @ hdr_close @ c @ fence_close @ post)"
  shows "findall content = []
         \<and> extract_swift_files ''remaining_files.txt'' st = (None, st)
         \<and> extractor_main st = (None, st\<lparr>stdout := stdout st @ [''\<newline>Extraction complete!'']\<rparr>)"
proof -
  have none: "findall content = []"
  proof (rule ccontr)
    assume "findall content \<noteq> []"
    then obtain p c where "(p, c) \<in> set (findall content)"
      by (cases "findall content") auto
    from findall_sound [OF this] assms(2) show False
      by (metis append.assoc)
  qed
  with assms(1) have "extract_swift_files ''remaining_files.txt'' st = (None, st)"
    by (simp add: extract_swift_files_def)
  with none show ?thesis by (simp add: extractor_main_def print_def)
qed

theorem extractor_no_section_witness:
  "read_text (doc_sys ''# Notes\<newline>no code here'') ''remaining_files.txt''
     = Inr ''# Notes\<newline>no code here''
   \<and> \<not> (\<exists>pre p c post. p \<noteq> [] \<and>
         ''# Notes\<newline>no code here'' = pre @ hdr_open @ p @ ext @ hdr_close @ c @ fence_close @ post)
   \<and> extractor_main (doc_sys ''# Notes\<newline>no code here'')
     = (None, (doc_sys ''# Notes\<newline>no code here'')\<lparr>stdout := [''\<newline>Extraction complete!'']\<rparr>)"
proof -
  let ?d = "''# Notes\<newline>no code here''"
  have r: "read_text (doc_sys ?d) ''remaining_files.txt'' = Inr ?d"
    by (simp add: eval_defs)
  have n: "\<not> (\<exists>pre p c post. p \<noteq> [] \<and>
         ?d = pre @ hdr_open @ p @ ext @ hdr_close @ c @ fence_close @ post)"
  proof
    assume "\<exists>pre p c post. p \<noteq> [] \<and>
         ?d = pre @ hdr_open @ p @ ext @ hdr_close @ c @ fence_close @ post"
    then obtain pre p c post where
      "?d = pre @ hdr_open @ p @ ext @ hdr_close @ c @ fence_close @ post" by blast
    then have "set ?d = set (pre @ hdr_open @ p @ ext @ hdr_close @ c @ fence_close @ post)"
      by simp
    then have "CHR ''*'' \<in> set ?d" by (simp add: hdr_open_def)
    then show False by simp
  qed
  from extractor_no_section [OF r n] r n show ?thesis
    by (simp add: doc_sys_def)
qed




text \<open>
  C3. When a run of the extractor ends without error, a second run on the resulting
  state ends without error as well and leaves every node of the file tree as the first
  run left it: each file is written again with the same content and nothing is added.
\<close>

theorem extractor_idempotent:
  assumes "extractor_main st = (None, st1)"
  shows "\<exists>st2. extractor_main st1 = (None, st2) \<and> nodes st2 = nodes st1"
proof -
  let ?f = "''remaining_files.txt''"
  let ?msg = "''\<newline>Extraction complete!''"
  from assms obtain content s1 where rd: "read_text st ?f = Inr content"
    and run: "write_matches (findall content) st = (None, s1)"
    and st1: "st1 = print ?msg s1"
    by (auto simp: extractor_main_def extract_swift_files_def
        split: sum.splits prod.splits option.splits)
  from input_kept [OF rd run] have "read_text s1 ?f = Inr content" .
  then have rd1: "read_text st1 ?f = Inr content"
    by (simp only: st1 read_text_print)
  from write_matches_grows [OF run] have c: "cwd s1 = cwd st" by simp
  have g: "grows (nodes s1) (nodes st1)" by (simp add: st1 print_def grows_refl)
  have c1: "cwd st1 = cwd st" by (simp add: st1 print_def c)
  from write_matches_replay [OF run g c1] obtain t' where
    t: "write_matches (findall content) st1 = (None, t')"
    "\<forall>k. nodes t' k = nodes s1 k \<or> (nodes t' k = nodes st1 k \<and> nodes s1 k = nodes st k)"
    by blast
  have "nodes st1 = nodes s1" by (simp add: st1 print_def)
  with t(2) have "nodes t' = nodes st1" by (intro ext) auto
  moreover from rd1 t(1) have "extractor_main st1 = (None, print ?msg t')"
    by (simp add: extractor_main_def extract_swift_files_def)
  ultimately show ?thesis by (intro exI [of _ "print ?msg t'"]) (simp add: print_def)
qed

theorem extractor_idempotent_witness:
  "extractor_main (doc_sys doc_swift) = (None, snd (extractor_main (doc_sys doc_swift)))
   \<and> (\<exists>st2. extractor_main (snd (extractor_main (doc_sys doc_swift))) = (None, st2)
         \<and> nodes st2 = nodes (snd (extractor_main (doc_sys doc_swift))))"
proof -
  have "fst (extractor_main (doc_sys doc_swift)) = None" by code_simp
  then have e: "extractor_main (doc_sys doc_swift) = (None, snd (extractor_main (doc_sys doc_swift)))"
    by (simp add: prod_eq_iff)
  note x = extractor_idempotent [OF e]
  show ?thesis by (intro conjI e x)
qed








text \<open>
  C2, as the code has it. For a document of N well-formed sections, separated by text without a
  header mark, and a run that ends without error: the pattern has exactly the N matches,
  in order; the run prints N lines \<^verbatim>\<open>Written: ...\<close>; the destination of a section that no
  later section shares holds exactly the code of that section, so a file holds the code
  of the last section that names it; when the N destinations are N different files,
  each holds exactly the code of its section and the files written are N; and every
  other node of the tree is as before or a directory made by the run.
\<close>

theorem extractor_sections:
  assumes "\<forall>s\<in>set secs. well_formed s" and "\<not> sublist hdr_open tail"
    and "read_text st ''remaining_files.txt'' = Inr (document secs tail)"
    and "extractor_main st = (None, st')"
  shows "findall (document secs tail) = map (\<lambda>s. (sec_path s, sec_code s)) secs
     \<and> stdout st' = stdout st @ map (\<lambda>s. ''Written: '' @ strip (sec_path s)) secs
          @ [''\<newline>Extraction complete!'']
     \<and> (\<forall>i<length secs.
           (\<forall>j. i < j \<and> j < length secs \<longrightarrow>
               resolve st' (dest (sec_path (secs ! j))) \<noteq> resolve st' (dest (sec_path (secs ! i))))
           \<longrightarrow> (\<exists>k. resolve st' (dest (sec_path (secs ! i))) = Inr k
                  \<and> nodes st' k = Some (File (sec_code (secs ! i)))))
     \<and> (distinct (map (\<lambda>s. resolve st' (dest (sec_path s))) secs) \<longrightarrow>
           (\<forall>s\<in>set secs. \<exists>k. resolve st' (dest (sec_path s)) = Inr k
              \<and> nodes st' k = Some (File (sec_code s)))
           \<and> card {k. \<exists>s\<in>set secs. resolve st' (dest (sec_path s)) = Inr k} = length secs)
     \<and> (\<forall>k. nodes st' k = nodes st k
            \<or> (node_at (nodes st) k = None \<and> nodes st' k = Some Dir)
            \<or> (\<exists>s\<in>set secs. resolve st' (dest (sec_path s)) = Inr k))"
proof -
  let ?ms = "map (\<lambda>s. (sec_path s, sec_code s)) secs"
  let ?msg = "''\<newline>Extraction complete!''"
  let ?f = "\<lambda>s. resolve st' (dest (sec_path s))"
  from findall_document [OF assms(1,2)] have f: "findall (document secs tail) = ?ms" .
  obtain r1 s1 where run1: "write_matches ?ms st = (r1, s1)" by (cases "write_matches ?ms st")
  from assms(3) f run1 have "extract_swift_files ''remaining_files.txt'' st = (r1, s1)"
    by (simp add: extract_swift_files_def)
  with assms(4) have r1: "r1 = None" and st': "st' = print ?msg s1"
    by (auto simp: extractor_main_def split: option.splits)
  note run = run1 [unfolded r1]
  have res: "resolve st' p = resolve s1 p" for p by (simp only: st' resolve_print)
  have nod: "nodes st' = nodes s1" by (simp only: st' nodes_print)
  from write_matches_frame [OF run] have w: "writes ?ms st s1"
    and out: "stdout s1 = stdout st @ map (\<lambda>m. ''Written: '' @ strip (fst m)) ?ms"
    by simp_all
  from out have o: "stdout st' = stdout st @ map (\<lambda>s. ''Written: '' @ strip (sec_path s)) secs @ [?msg]"
    by (simp add: st' print_def comp_def)
  have lastw: "\<forall>i<length secs.
           (\<forall>j. i < j \<and> j < length secs \<longrightarrow> ?f (secs ! j) \<noteq> ?f (secs ! i))
           \<longrightarrow> (\<exists>k. ?f (secs ! i) = Inr k \<and> nodes st' k = Some (File (sec_code (secs ! i))))"
  proof (intro allI impI)
    fix i assume i: "i < length secs"
      and l: "\<forall>j. i < j \<and> j < length secs \<longrightarrow> ?f (secs ! j) \<noteq> ?f (secs ! i)"
    from i have i': "i < length ?ms" by simp
    have "\<forall>j. i < j \<and> j < length ?ms \<longrightarrow>
       resolve s1 (dest (fst (?ms ! j))) \<noteq> resolve s1 (dest (fst (?ms ! i)))"
    proof (intro allI impI)
      fix j assume j: "i < j \<and> j < length ?ms"
      with l have "?f (secs ! j) \<noteq> ?f (secs ! i)" by simp
      with i j show "resolve s1 (dest (fst (?ms ! j))) \<noteq> resolve s1 (dest (fst (?ms ! i)))"
        by (simp add: res)
    qed
    from write_matches_last [OF run i' this] i
    show "\<exists>k. ?f (secs ! i) = Inr k \<and> nodes st' k = Some (File (sec_code (secs ! i)))"
      by (simp add: res nod)
  qed
  have dist: "distinct (map ?f secs) \<longrightarrow>
           (\<forall>s\<in>set secs. \<exists>k. ?f s = Inr k \<and> nodes st' k = Some (File (sec_code s)))
           \<and> card {k. \<exists>s\<in>set secs. ?f s = Inr k} = length secs"
  proof
    assume d: "distinct (map ?f secs)"
    then have "distinct (map (\<lambda>m. resolve s1 (dest (fst m))) ?ms)"
      by (simp add: res comp_def)
    from write_matches_files [OF run this]
    have all: "\<forall>s\<in>set secs. \<exists>k. ?f s = Inr k \<and> nodes st' k = Some (File (sec_code s))"
      by (simp add: res nod)
    let ?K = "{k. \<exists>s\<in>set secs. ?f s = Inr k}"
    let ?I = "Inr :: string list \<Rightarrow> error + string list"
    have "?f ` set secs = ?I ` ?K"
    proof (intro set_eqI iffI)
      fix x assume "x \<in> ?f ` set secs"
      then obtain s where s: "s \<in> set secs" "x = ?f s" by blast
      with all obtain k where "?f s = Inr k" by blast
      with s show "x \<in> ?I ` ?K" by blast
    next
      fix x assume "x \<in> ?I ` ?K"
      then obtain k s where "x = Inr k" "s \<in> set secs" "?f s = Inr k" by blast
      then show "x \<in> ?f ` set secs" by (metis imageI)
    qed
    then have "card (?f ` set secs) = card ?K"
      by (simp add: card_image)
    moreover from d have "card (?f ` set secs) = length secs"
      by (metis distinct_card length_map set_map)
    ultimately have "card ?K = length secs" by simp
    with all show "(\<forall>s\<in>set secs. \<exists>k. ?f s = Inr k \<and> nodes st' k = Some (File (sec_code s)))
           \<and> card ?K = length secs" by (intro conjI)
  qed
  have frame: "\<forall>k. nodes st' k = nodes st k
            \<or> (node_at (nodes st) k = None \<and> nodes st' k = Some Dir)
            \<or> (\<exists>s\<in>set secs. resolve st' (dest (sec_path s)) = Inr k)"
  proof
    fix k
    show "nodes st' k = nodes st k
            \<or> (node_at (nodes st) k = None \<and> nodes st' k = Some Dir)
            \<or> (\<exists>s\<in>set secs. resolve st' (dest (sec_path s)) = Inr k)"
      using w [unfolded writes_def, THEN spec, of k] by (simp add: res nod)
  qed
  show ?thesis by (intro conjI f o lastw dist frame)
qed

theorem extractor_sections_witness:
  "list_all well_formed three_secs
   \<and> \<not> sublist hdr_open ''\<newline>''
   \<and> read_text (doc_sys (document three_secs ''\<newline>'')) ''remaining_files.txt''
        = Inr (document three_secs ''\<newline>'')
   \<and> extractor_main (doc_sys (document three_secs ''\<newline>''))
        = (None, snd (extractor_main (doc_sys (document three_secs ''\<newline>''))))
   \<and> findall (document three_secs ''\<newline>'')
        = [(''a.swift'', ''one''), (''b/c.swift'', ''two\<newline>lines''), (''a.swift'', ''three'')]
   \<and> stdout (snd (extractor_main (doc_sys (document three_secs ''\<newline>''))))
        = [''Written: a.swift'', ''Written: b/c.swift'', ''Written: a.swift'',
           ''\<newline>Extraction complete!'']
   \<and> (\<exists>k. resolve (snd (extractor_main (doc_sys (document three_secs ''\<newline>''))))
             (dest ''b/c.swift'') = Inr k
         \<and> nodes (snd (extractor_main (doc_sys (document three_secs ''\<newline>'')))) k
             = Some (File ''two\<newline>lines''))
   \<and> (\<exists>k. resolve (snd (extractor_main (doc_sys (document three_secs ''\<newline>''))))
             (dest ''a.swift'') = Inr k
         \<and> nodes (snd (extractor_main (doc_sys (document three_secs ''\<newline>'')))) k
             = Some (File ''three''))
   \<and> read_text (snd (extractor_main (doc_sys (document three_secs ''\<newline>''))))
        (base @ ''/a.swift'') = Inr ''three''
   \<and> read_text (snd (extractor_main (doc_sys (document three_secs ''\<newline>''))))
        (base @ ''/b/c.swift'') = Inr ''two\<newline>lines''"
proof -
  let ?st = "doc_sys (document three_secs ''\<newline>'')"
  let ?st' = "snd (extractor_main ?st)"
  have la: "list_all well_formed three_secs" by code_simp
  then have h1: "\<forall>s\<in>set three_secs. well_formed s" by (simp only: list_all_iff)
  have h2: "\<not> sublist hdr_open ''\<newline>''" by code_simp
  have h3: "read_text ?st ''remaining_files.txt'' = Inr (document three_secs ''\<newline>'')"
    by code_simp
  have "fst (extractor_main ?st) = None" by code_simp
  then have h4: "extractor_main ?st = (None, ?st')"
    by (simp add: prod_eq_iff)
  note x = extractor_sections [OF h1 h2 h3 h4]
  have e1: "map (\<lambda>s. (sec_path s, sec_code s)) three_secs
      = [(''a.swift'', ''one''), (''b/c.swift'', ''two\<newline>lines''), (''a.swift'', ''three'')]"
    by code_simp
  have e2: "stdout ?st @ map (\<lambda>s. ''Written: '' @ strip (sec_path s)) three_secs
          @ [''\<newline>Extraction complete!'']
      = [''Written: a.swift'', ''Written: b/c.swift'', ''Written: a.swift'',
         ''\<newline>Extraction complete!'']"
    by code_simp
  note c1 = x [THEN conjunct1, unfolded e1]
  note c2 = x [THEN conjunct2, THEN conjunct1, unfolded e2]
  note c3 = x [THEN conjunct2, THEN conjunct2, THEN conjunct1]
  have len: "length three_secs = 3" by code_simp
  have s1: "sec_path (three_secs ! 1) = ''b/c.swift''" "sec_code (three_secs ! 1) = ''two\<newline>lines''"
    by code_simp+
  have s2: "sec_path (three_secs ! 2) = ''a.swift''" "sec_code (three_secs ! 2) = ''three''"
    by code_simp+
  have ne: "resolve ?st' (dest ''a.swift'') \<noteq> resolve ?st' (dest ''b/c.swift'')" by code_simp
  have l1: "\<forall>j. 1 < j \<and> j < length three_secs \<longrightarrow>
      resolve ?st' (dest (sec_path (three_secs ! j))) \<noteq> resolve ?st' (dest (sec_path (three_secs ! 1)))"
  proof (intro allI impI)
    fix j assume "1 < j \<and> j < length three_secs"
    then have j: "j = 2" by (simp only: len) arith
    show "resolve ?st' (dest (sec_path (three_secs ! j)))
        \<noteq> resolve ?st' (dest (sec_path (three_secs ! 1)))"
      unfolding j s1 s2 by (rule ne)
  qed
  have l2: "\<forall>j. 2 < j \<and> j < length three_secs \<longrightarrow>
      resolve ?st' (dest (sec_path (three_secs ! j))) \<noteq> resolve ?st' (dest (sec_path (three_secs ! 2)))"
  proof (intro allI impI)
    fix j assume "2 < j \<and> j < length three_secs"
    then have False by (simp only: len) arith
    then show "resolve ?st' (dest (sec_path (three_secs ! j)))
        \<noteq> resolve ?st' (dest (sec_path (three_secs ! 2)))" ..
  qed
  have i1: "1 < length three_secs" and i2: "2 < length three_secs" by (simp_all add: len)
  note b = c3 [THEN spec, of 1, THEN mp, OF i1, THEN mp, OF l1, unfolded s1]
  note a = c3 [THEN spec, of 2, THEN mp, OF i2, THEN mp, OF l2, unfolded s2]
  have r1: "read_text ?st' (base @ ''/a.swift'') = Inr ''three''" by code_simp
  have r2: "read_text ?st' (base @ ''/b/c.swift'') = Inr ''two\<newline>lines''" by code_simp
  show ?thesis by (intro conjI la h2 h3 h4 c1 c2 b a r1 r2)
qed

text \<open>
  C2 as stated fails: two well-formed sections with the path \<^verbatim>\<open>a.swift\<close> and the codes
  \<^verbatim>\<open>one\<close> and \<^verbatim>\<open>two\<close> give two writes to one file, which holds \<^verbatim>\<open>two\<close> in the end.
\<close>

theorem extractor_same_path_counterexample:
  "list_all well_formed dup_secs
   \<and> length dup_secs = 2
   \<and> findall (document dup_secs []) = [(''a.swift'', ''one''), (''a.swift'', ''two'')]
   \<and> fst (extractor_main (doc_sys (document dup_secs []))) = None
   \<and> stdout (snd (extractor_main (doc_sys (document dup_secs []))))
        = [''Written: a.swift'', ''Written: a.swift'', ''\<newline>Extraction complete!'']
   \<and> read_text (snd (extractor_main (doc_sys (document dup_secs [])))) (dest ''a.swift'')
        = Inr ''two''"
  by code_simp

text \<open>
  C9 at a document with a section for \<^verbatim>\<open>a.txt\<close> followed by a section for \<^verbatim>\<open>b.swift\<close>. Under
  \<^verbatim>\<open>re.DOTALL\<close> the dot of the first group matches newlines too, so the one match starts at
  the header of the first section and its path runs over that whole section up to
  \<^verbatim>\<open>b.swift\<close>: the code \<^verbatim>\<open>B\<close> is written to a file of that name, and no file \<^verbatim>\<open>b.swift\<close> is made.
\<close>

theorem header_spans_lines:
  "findall doc_mixed
     = [(''a.txt**\<newline>```swift\<newline>A\<newline>```\<newline>### **b.swift'', ''B'')]
   \<and> fst (extractor_main (doc_sys doc_mixed)) = None
   \<and> stdout (snd (extractor_main (doc_sys doc_mixed)))
       = [''Written: a.txt**\<newline>```swift\<newline>A\<newline>```\<newline>### **b.swift'',
          ''\<newline>Extraction complete!'']
   \<and> read_text (snd (extractor_main (doc_sys doc_mixed))) (base @ ''/b.swift'')
       = Inl FileNotFoundError
   \<and> read_text (snd (extractor_main (doc_sys doc_mixed)))
         (base @ ''/a.txt**\<newline>```swift\<newline>A\<newline>```\<newline>### **b.swift'')
       = Inr ''B''"
  by code_simp


end
